theory Spec2Isabelle
  imports Complex_Main
begin

section \<open>Line framer\<close>

text \<open>
  The framing loop of \<^verbatim>\<open>handle_notify\<close> (xiao_imu_ble_final.py, lines 147-162) and of
  \<^verbatim>\<open>reader_thread_fn\<close> (xiao_usb_live.py, lines 117-136; xiao_imu_stream.py, lines 84-96).
  A \<^verbatim>\<open>bytearray\<close> is a list of bytes; Isabelle's \<^typ>\<open>char\<close> is a byte.
\<close>

type_synonym bytes = "char list"

definition LF :: char where
  "LF = CHR 0x0A"

definition CR :: char where
  "CR = CHR 0x0D"

text \<open>\<^verbatim>\<open>buffer.find(b)\<close> for a one-byte needle: the first index, or -1.\<close>

fun find_byte :: "bytes \<Rightarrow> char \<Rightarrow> int" where
  "find_byte [] b = - 1"
| "find_byte (x # xs) b =
     (if x = b then 0
      else (let r = find_byte xs b in if r = - 1 then - 1 else r + 1))"

text \<open>
  \<^verbatim>\<open>
  npos = buffer.find(b"\n")
  rpos = buffer.find(b"\r")
  term = -1
  if npos != -1 and rpos != -1: term = min(npos, rpos)
  elif npos != -1: term = npos
  elif rpos != -1: term = rpos
  \<close>
\<close>

definition find_term :: "bytes \<Rightarrow> int" where
  "find_term buffer =
     (let npos = find_byte buffer LF; rpos = find_byte buffer CR in
      if npos \<noteq> - 1 \<and> rpos \<noteq> - 1 then min npos rpos
      else if npos \<noteq> - 1 then npos
      else if rpos \<noteq> - 1 then rpos
      else - 1)"

text \<open>
  \<^verbatim>\<open>
  drop = term + 1
  if drop < len(buffer) and buffer[drop:drop+1] in (b"\n", b"\r"):
      drop += 1
  \<close>
  The slice \<^verbatim>\<open>buffer[drop:drop+1]\<close> is the one-byte list at index \<^verbatim>\<open>drop\<close>.
\<close>

definition drop_count :: "bytes \<Rightarrow> int \<Rightarrow> int" where
  "drop_count buffer term =
     (let drop0 = term + 1 in
      if drop0 < int (length buffer)
         \<and> (take 1 (drop (nat drop0) buffer) = [LF] \<or> take 1 (drop (nat drop0) buffer) = [CR])
      then drop0 + 1 else drop0)"

lemma find_byte_range: "find_byte xs b = - 1 \<or> (0 \<le> find_byte xs b \<and> find_byte xs b < int (length xs))"
  by (induction xs) (auto simp: Let_def)

lemma find_term_range:
  "find_term xs = - 1 \<or> (0 \<le> find_term xs \<and> find_term xs < int (length xs))"
  using find_byte_range [of xs LF] find_byte_range [of xs CR]
  by (auto simp: find_term_def Let_def min_def)

lemma drop_count_pos: "0 \<le> term \<Longrightarrow> 1 \<le> drop_count buffer term"
  by (simp add: drop_count_def Let_def)

text \<open>
  The \<^verbatim>\<open>while True\<close> loop. Each round emits \<^verbatim>\<open>buffer[:term]\<close> as one frame and deletes
  \<^verbatim>\<open>buffer[:drop]\<close>; the loop ends when no terminator is left. The result is the list of
  frames in the order they were emitted and the bytes that stay buffered. The source
  decodes and parses each frame inside the loop; neither touches the buffer, so the model
  returns the frames and leaves their delivery to \<open>deliver\<close> below.
\<close>

function frame_loop :: "bytes \<Rightarrow> bytes list \<times> bytes" where
  "frame_loop buffer =
     (let term = find_term buffer in
      if term = - 1 then ([], buffer)
      else (let line = take (nat term) buffer;
                rest = drop (nat (drop_count buffer term)) buffer;
                (frames, buffer') = frame_loop rest
            in (line # frames, buffer')))"
  by pat_completeness auto
termination
  apply (relation "measure length")
   apply simp
  subgoal for buffer t
    using find_term_range [of buffer] drop_count_pos [of t buffer]
    by auto
  done

declare frame_loop.simps [simp del]

text \<open>\<^verbatim>\<open>buffer += data\<close>, then the loop: one call of the notification handler.\<close>

definition feed :: "bytes \<Rightarrow> bytes \<Rightarrow> bytes list \<times> bytes" where
  "feed buffer data = frame_loop (buffer @ data)"

text \<open>Successive calls, one per chunk, the buffer carried from call to call.\<close>

fun feed_all :: "bytes \<Rightarrow> bytes list \<Rightarrow> bytes list \<times> bytes" where
  "feed_all buffer [] = ([], buffer)"
| "feed_all buffer (c # cs) =
     (let (frames, buffer') = feed buffer c;
          (frames', buffer'') = feed_all buffer' cs
      in (frames @ frames', buffer''))"

text \<open>A terminator byte: \<^verbatim>\<open>\n\<close> or \<^verbatim>\<open>\r\<close>.\<close>

definition is_term :: "char \<Rightarrow> bool" where
  "is_term c = (c = LF \<or> c = CR)"

text \<open>
  What the look-ahead of \<open>drop_count\<close> removes from the bytes after a terminator: one
  more terminator byte, when it is already there.
\<close>

definition skip1 :: "bytes \<Rightarrow> bytes" where
  "skip1 rest = (case rest of [] \<Rightarrow> [] | x # r \<Rightarrow> if is_term x then r else x # r)"

text \<open>
  A reference splitter for the proofs: it cuts at every terminator byte, one by one, and
  returns the closed segments and the open tail.
\<close>

fun split_all :: "bytes \<Rightarrow> bytes list \<times> bytes" where
  "split_all [] = ([], [])"
| "split_all (c # cs) =
     (let (fs, r) = split_all cs in
      if is_term c then ([] # fs, r)
      else (case fs of [] \<Rightarrow> ([], c # r) | f # fs' \<Rightarrow> ((c # f) # fs', r)))"

text \<open>
  A chunking none of whose boundaries separates two adjacent terminator bytes. The flag
  says whether the last byte delivered so far was a terminator; empty chunks deliver
  nothing.
\<close>

fun splits_ok :: "bool \<Rightarrow> bytes list \<Rightarrow> bool" where
  "splits_ok prev [] = True"
| "splits_ok prev (c # cs) =
     (if c = [] then splits_ok prev cs
      else \<not> (prev \<and> is_term (hd c)) \<and> splits_ok (is_term (last c)) cs)"

section \<open>Text and numbers\<close>

text \<open>
  A Python \<^verbatim>\<open>str\<close> is a \<^typ>\<open>string\<close>; a character stands for the code point of its
  value (code points below 256). The exceptions the modelled code raises or catches:
\<close>

datatype exn = ValueError | QueueFull | RuntimeError

text \<open>
  \<^verbatim>\<open>str.isspace\<close> on one character, which \<^verbatim>\<open>str.strip()\<close> and \<^verbatim>\<open>str.split()\<close> use: the
  code points 9-13, 28-32, 133 and 160.
\<close>

definition py_isspace :: "char \<Rightarrow> bool" where
  "py_isspace c =
     (let n = (of_char c :: nat) in
      (9 \<le> n \<and> n \<le> 13) \<or> (28 \<le> n \<and> n \<le> 32) \<or> n = 133 \<or> n = 160)"

definition strip :: "string \<Rightarrow> string" where
  "strip s = rev (dropWhile py_isspace (rev (dropWhile py_isspace s)))"

definition startswith :: "string \<Rightarrow> string \<Rightarrow> bool" where
  "startswith s p = (take (length p) s = p)"

text \<open>Cutting at every character that satisfies \<open>P\<close>; the pieces may be empty.\<close>

fun split_where :: "(char \<Rightarrow> bool) \<Rightarrow> string \<Rightarrow> string list" where
  "split_where P [] = [[]]"
| "split_where P (c # cs) =
     (if P c then [] # split_where P cs
      else (case split_where P cs of [] \<Rightarrow> [[c]] | f # fs \<Rightarrow> (c # f) # fs))"

text \<open>\<^verbatim>\<open>s.split(",")\<close>: one separator character, empty fields kept.\<close>

definition split_on :: "char \<Rightarrow> string \<Rightarrow> string list" where
  "split_on sep s = split_where (\<lambda>c. c = sep) s"

text \<open>\<^verbatim>\<open>s.split()\<close>: runs of whitespace separate, no empty token.\<close>

definition split_ws :: "string \<Rightarrow> string list" where
  "split_ws s = filter (\<lambda>w. w \<noteq> []) (split_where py_isspace s)"

text \<open>\<^verbatim>\<open>tok.split(":", 1)\<close> on a token that holds a colon: the text before the first colon
  and the text after it.\<close>

definition split_colon :: "string \<Rightarrow> string \<times> string" where
  "split_colon tok =
     (takeWhile (\<lambda>c. c \<noteq> CHR '':'') tok, drop 1 (dropWhile (\<lambda>c. c \<noteq> CHR '':'') tok))"

subsection \<open>The builtin \<^verbatim>\<open>float\<close>\<close>

text \<open>
  A Python float is a finite number, an infinity or a NaN. The model keeps the exact
  decimal value of a finite literal: the rounding to binary64 is not modelled, and the
  two zeros are one value.
\<close>

datatype pyfloat = Finite rat | PosInf | NegInf | NaN

definition is_digit :: "char \<Rightarrow> bool" where
  "is_digit c = (let n = (of_char c :: nat) in 48 \<le> n \<and> n \<le> 57)"

definition digits_val :: "string \<Rightarrow> nat" where
  "digits_val ds = foldl (\<lambda>n c. 10 * n + ((of_char c :: nat) - 48)) 0 (filter is_digit ds)"

text \<open>A digit part: digits, single underscores allowed between two digits.\<close>

definition digitpart :: "string \<Rightarrow> bool" where
  "digitpart s = list_all (\<lambda>g. g \<noteq> [] \<and> list_all is_digit g) (split_on (CHR ''_'') s)"

text \<open>The text before the first character that satisfies \<open>P\<close>, and the text after it
  when there is one.\<close>

definition cut_first :: "(char \<Rightarrow> bool) \<Rightarrow> string \<Rightarrow> string \<times> string option" where
  "cut_first P s =
     (takeWhile (\<lambda>c. \<not> P c) s,
      case dropWhile (\<lambda>c. \<not> P c) s of [] \<Rightarrow> None | _ # r \<Rightarrow> Some r)"

definition split_sign :: "string \<Rightarrow> bool \<times> string" where
  "split_sign s =
     (case s of [] \<Rightarrow> (False, [])
      | c # r \<Rightarrow> if c = CHR ''-'' then (True, r) else if c = CHR ''+'' then (False, r) else (False, s))"

definition parse_exponent :: "string \<Rightarrow> int option" where
  "parse_exponent e =
     (let (neg, ds) = split_sign e in
      if digitpart ds then Some (if neg then - int (digits_val ds) else int (digits_val ds))
      else None)"

definition pow10 :: "int \<Rightarrow> rat" where
  "pow10 k = (if 0 \<le> k then 10 ^ nat k else 1 / 10 ^ nat (- k))"

text \<open>
  An unsigned decimal literal: digits with an optional fraction and an optional
  exponent, at least one digit before or after the point.
\<close>

definition parse_decimal :: "string \<Rightarrow> rat option" where
  "parse_decimal s =
     (let (m, eopt) = cut_first (\<lambda>c. c = CHR ''e'' \<or> c = CHR ''E'') s;
          (ip, fopt) = cut_first (\<lambda>c. c = CHR ''.'') m;
          fp = (case fopt of None \<Rightarrow> [] | Some f \<Rightarrow> f);
          ok = (case fopt of None \<Rightarrow> digitpart ip
                | Some f \<Rightarrow> (ip = [] \<or> digitpart ip) \<and> (f = [] \<or> digitpart f)
                            \<and> \<not> (ip = [] \<and> f = []));
          ex = (case eopt of None \<Rightarrow> Some 0 | Some e \<Rightarrow> parse_exponent e)
      in if ok
         then (case ex of None \<Rightarrow> None
               | Some x \<Rightarrow>
                   Some (of_nat (digits_val (ip @ fp))
                         * pow10 (x - int (length (filter is_digit fp)))))
         else None)"

definition lower :: "char \<Rightarrow> char" where
  "lower c = (let n = (of_char c :: nat) in if 65 \<le> n \<and> n \<le> 90 then char_of (n + 32) else c)"

text \<open>The whitespace \<^verbatim>\<open>float\<close> strips from both ends: 9-13, 32, 133 and 160.\<close>

definition float_isspace :: "char \<Rightarrow> bool" where
  "float_isspace c =
     (let n = (of_char c :: nat) in (9 \<le> n \<and> n \<le> 13) \<or> n = 32 \<or> n = 133 \<or> n = 160)"

text \<open>
  \<^verbatim>\<open>float(s)\<close> on a string: the value, or \<^verbatim>\<open>ValueError\<close>. Accepted are, between
  optional whitespace and after an optional sign, a decimal literal and the words
  \<^verbatim>\<open>inf\<close>, \<^verbatim>\<open>infinity\<close> and \<^verbatim>\<open>nan\<close> in any case.
\<close>

definition py_float :: "string \<Rightarrow> exn + pyfloat" where
  "py_float s =
     (let t = rev (dropWhile float_isspace (rev (dropWhile float_isspace s)));
          (neg, u) = split_sign t;
          l = map lower u
      in if l = ''inf'' \<or> l = ''infinity'' then Inr (if neg then NegInf else PosInf)
         else if l = ''nan'' then Inr NaN
         else (case parse_decimal u of
                 None \<Rightarrow> Inl ValueError
               | Some q \<Rightarrow> Inr (Finite (if neg then - q else q))))"

text \<open>\<^verbatim>\<open>[float(x) for x in parts]\<close>: the first failing field raises.\<close>

fun floats :: "string list \<Rightarrow> exn + pyfloat list" where
  "floats [] = Inr []"
| "floats (x # xs) =
     (case py_float x of
        Inl e \<Rightarrow> Inl e
      | Inr v \<Rightarrow> (case floats xs of Inl e \<Rightarrow> Inl e | Inr vs \<Rightarrow> Inr (v # vs)))"

section \<open>Record decoders\<close>

text \<open>
  \<^verbatim>\<open>try_parse\<close> of xiao_usb.py (lines 37-44), with \<^verbatim>\<open>CSV_HEADER = ["t","v1","v2"]\<close>:
  \<^verbatim>\<open>
  try:
      vals = [float(x) for x in line.strip().split(",")]
      if len(vals) == len(CSV_HEADER):
          return tuple(vals)
  except:
      return None
  return None
  \<close>
  The body of the \<^verbatim>\<open>try\<close> first, then the handler, which catches everything.
\<close>

definition try_parse_usb_body :: "string \<Rightarrow> exn + pyfloat list option" where
  "try_parse_usb_body line =
     (case floats (split_on (CHR '','') (strip line)) of
        Inl e \<Rightarrow> Inl e
      | Inr vals \<Rightarrow> if length vals = 3 then Inr (Some vals) else Inr None)"

definition try_parse_usb :: "string \<Rightarrow> exn + pyfloat list option" where
  "try_parse_usb line =
     (case try_parse_usb_body line of Inl e \<Rightarrow> Inr None | Inr r \<Rightarrow> Inr r)"

text \<open>
  \<^verbatim>\<open>parse_line\<close> of Test_BLE_Sense.py (lines 71-78):
  \<^verbatim>\<open>
  parts = line.strip().split(",")
  if len(parts) != 3:
      return None
  try:
      return (float(parts[0]), float(parts[1]), float(parts[2]))
  except ValueError:
      return None
  \<close>
  The handler catches \<^verbatim>\<open>ValueError\<close> only; any other exception would leave the function.
\<close>

definition except_ValueError :: "exn + 'a option \<Rightarrow> exn + 'a option" where
  "except_ValueError r =
     (case r of Inl e \<Rightarrow> if e = ValueError then Inr None else Inl e | Inr v \<Rightarrow> Inr v)"

definition parse_line_ble :: "string \<Rightarrow> exn + (pyfloat \<times> pyfloat \<times> pyfloat) option" where
  "parse_line_ble line =
     (let parts = split_on (CHR '','') (strip line) in
      if length parts \<noteq> 3 then Inr None
      else except_ValueError
        (case py_float (parts ! 0) of
           Inl e \<Rightarrow> Inl e
         | Inr a \<Rightarrow>
            (case py_float (parts ! 1) of
               Inl e \<Rightarrow> Inl e
             | Inr b \<Rightarrow>
                (case py_float (parts ! 2) of
                   Inl e \<Rightarrow> Inl e
                 | Inr c \<Rightarrow> Inr (Some (a, b, c))))))"

text \<open>An IMU record: \<^verbatim>\<open>(t, ax, ay, az, gx, gy, gz)\<close>.\<close>

type_synonym row = "pyfloat \<times> pyfloat \<times> pyfloat \<times> pyfloat \<times> pyfloat \<times> pyfloat \<times> pyfloat"

text \<open>
  \<^verbatim>\<open>try_parse\<close> of xiao_usb_live.py (lines 72-83), with the seven names of its
  \<^verbatim>\<open>CSV_HEADER\<close>: empty and \<^verbatim>\<open>#\<close> lines give none, fewer than seven fields give none,
  the first seven fields are parsed.
\<close>

definition row_of_list :: "pyfloat list \<Rightarrow> row option" where
  "row_of_list vs =
     (case vs of [t, ax, ay, az, gx, gy, gz] \<Rightarrow> Some (t, ax, ay, az, gx, gy, gz) | _ \<Rightarrow> None)"

definition try_parse_live :: "string \<Rightarrow> exn + pyfloat list option" where
  "try_parse_live line =
     (let s = strip line in
      if s = [] \<or> startswith s ''#'' then Inr None
      else (let parts = split_on (CHR '','') s in
            if length parts < 7 then Inr None
            else except_ValueError
                   (case floats (take 7 parts) of Inl e \<Rightarrow> Inl e | Inr vals \<Rightarrow> Inr (Some vals))))"

definition EXPECTED_KEYS :: "string list" where
  "EXPECTED_KEYS = [''ax'', ''ay'', ''az'', ''gx'', ''gy'', ''gz'']"

text \<open>
  The loop over the tokens of a \<^verbatim>\<open>key:value\<close> line, shared by \<^verbatim>\<open>parse_csv_line\<close> and
  \<^verbatim>\<open>parse_line\<close> of xiao_imu_stream.py:
  \<^verbatim>\<open>
  for tok in s.split():
      if ":" not in tok: continue
      k, v = tok.split(":", 1)
      if k in EXPECTED_KEYS:
          try: kv[k] = float(v)
          except ValueError: return None
  \<close>
  The result \<open>Inr None\<close> is the \<^verbatim>\<open>return None\<close> from inside the loop; \<open>Inr (Some kv)\<close>
  is the dictionary when the loop runs to its end.
\<close>

fun kv_loop :: "string list \<Rightarrow> (string \<rightharpoonup> pyfloat) \<Rightarrow> exn + (string \<rightharpoonup> pyfloat) option" where
  "kv_loop [] kv = Inr (Some kv)"
| "kv_loop (tok # toks) kv =
     (if CHR '':'' \<notin> set tok then kv_loop toks kv
      else (let (k, v) = split_colon tok in
            if k \<in> set EXPECTED_KEYS
            then (case py_float v of
                    Inl e \<Rightarrow> if e = ValueError then Inr None else Inl e
                  | Inr x \<Rightarrow> kv_loop toks (kv(k \<mapsto> x)))
            else kv_loop toks kv))"

text \<open>
  \<^verbatim>\<open>
  if all(k in kv for k in EXPECTED_KEYS):
      return (0.0, kv["ax"], kv["ay"], kv["az"], kv["gx"], kv["gy"], kv["gz"])
  return None
  \<close>
\<close>

definition kv_row :: "(string \<rightharpoonup> pyfloat) \<Rightarrow> row option" where
  "kv_row kv =
     (if list_all (\<lambda>k. kv k \<noteq> None) EXPECTED_KEYS
      then Some (Finite 0, the (kv ''ax''), the (kv ''ay''), the (kv ''az''),
                 the (kv ''gx''), the (kv ''gy''), the (kv ''gz''))
      else None)"

definition kv_branch :: "string \<Rightarrow> exn + row option" where
  "kv_branch s =
     (case kv_loop (split_ws s) Map.empty of
        Inl e \<Rightarrow> Inl e
      | Inr None \<Rightarrow> Inr None
      | Inr (Some kv) \<Rightarrow> Inr (kv_row kv))"

text \<open>
  \<^verbatim>\<open>parse_csv_line\<close> of xiao_imu_ble_final.py (lines 67-90). A line with a comma and no
  colon and at least seven fields is decided by its first seven fields; a failure to
  unpack seven values would be a \<^verbatim>\<open>ValueError\<close> too. Every other line with a colon goes
  to the \<^verbatim>\<open>key:value\<close> loop; what is left gives none.
\<close>

definition parse_csv_line :: "string \<Rightarrow> exn + row option" where
  "parse_csv_line line =
     (let s = strip line in
      if s = [] \<or> startswith s ''#'' \<or> startswith s ''err'' then Inr None
      else if CHR '','' \<in> set s \<and> CHR '':'' \<notin> set s \<and> 7 \<le> length (split_on (CHR '','') s)
      then except_ValueError
             (case floats (take 7 (split_on (CHR '','') s)) of
                Inl e \<Rightarrow> Inl e
              | Inr vals \<Rightarrow> Inr (row_of_list vals))
      else if CHR '':'' \<in> set s then kv_branch s
      else Inr None)"

text \<open>\<^verbatim>\<open>parse_line\<close> of xiao_imu_stream.py (lines 46-59).\<close>

definition parse_line_stream :: "string \<Rightarrow> exn + row option" where
  "parse_line_stream line =
     (let s = strip line in
      if s = [] \<or> startswith s ''err'' then Inr None
      else kv_branch s)"

section \<open>Relay channel\<close>

text \<open>
  A \<^verbatim>\<open>queue.Queue(maxsize)\<close>: its bound and its entries, oldest first. The two
  operations the program uses are the non-blocking ones. \<^verbatim>\<open>put_nowait\<close> raises
  \<^verbatim>\<open>queue.Full\<close> when \<^verbatim>\<open>maxsize > 0\<close> and \<^verbatim>\<open>qsize() >= maxsize\<close>, and appends
  otherwise; \<^verbatim>\<open>get_nowait\<close> takes the oldest entry, and raises \<^verbatim>\<open>queue.Empty\<close> (the value
  \<open>None\<close> here) when there is none.
\<close>

datatype 'a queue = Queue (maxsize: int) (entries: "'a list")

definition qsize :: "'a queue \<Rightarrow> int" where
  "qsize q = int (length (entries q))"

definition put_nowait :: "'a queue \<Rightarrow> 'a \<Rightarrow> exn + 'a queue" where
  "put_nowait q item =
     (if 0 < maxsize q \<and> maxsize q \<le> qsize q then Inl QueueFull
      else Inr (Queue (maxsize q) (entries q @ [item])))"

definition get_nowait :: "'a queue \<Rightarrow> ('a \<times> 'a queue) option" where
  "get_nowait q =
     (case entries q of [] \<Rightarrow> None | item # rest \<Rightarrow> Some (item, Queue (maxsize q) rest))"

text \<open>
  The end of a round of the framing loop, in \<^verbatim>\<open>handle_notify\<close> and in both
  \<^verbatim>\<open>reader_thread_fn\<close>:
  \<^verbatim>\<open>
  if parsed:
      try: q_parsed.put_nowait(parsed)
      except queue.Full: pass
  \<close>
  A decoded record is a non-empty tuple, so \<^verbatim>\<open>if parsed\<close> asks whether there is one.
\<close>

definition deliver :: "'a queue \<Rightarrow> 'a option \<Rightarrow> exn + 'a queue" where
  "deliver q parsed =
     (case parsed of
        None \<Rightarrow> Inr q
      | Some r \<Rightarrow>
          (case put_nowait q r of
             Inl e \<Rightarrow> if e = QueueFull then Inr q else Inl e
           | Inr q' \<Rightarrow> Inr q'))"

text \<open>The decoding results of successive frames, delivered one after the other.\<close>

fun deliver_all :: "'a queue \<Rightarrow> 'a option list \<Rightarrow> exn + 'a queue" where
  "deliver_all q [] = Inr q"
| "deliver_all q (p # ps) =
     (case deliver q p of Inl e \<Rightarrow> Inl e | Inr q' \<Rightarrow> deliver_all q' ps)"

section \<open>Ring buffer and accumulator\<close>

text \<open>
  A \<^verbatim>\<open>collections.deque(maxlen=n)\<close>: its bound and its items, oldest first. \<^verbatim>\<open>append\<close>
  adds at the right end and, when that makes the deque longer than its bound, discards
  the item at the left end.
\<close>

datatype 'a deque = Deque (maxlen: nat) (items: "'a list")

definition deque_append :: "'a deque \<Rightarrow> 'a \<Rightarrow> 'a deque" where
  "deque_append d x =
     (let xs = items d @ [x] in
      Deque (maxlen d) (if maxlen d < length xs then tl xs else xs))"

definition deque_clear :: "'a deque \<Rightarrow> 'a deque" where
  "deque_clear d = Deque (maxlen d) []"

section \<open>Consumer session\<close>

text \<open>
  The part of \<^verbatim>\<open>st.session_state\<close> of xiao_imu_ble_final.py (lines 44-64) that the pump
  and the Start and Stop handlers read or write. \<open>reader_thread\<close> is \<open>None\<close> for no
  thread object and \<open>Some alive\<close> for a thread object with its \<^verbatim>\<open>is_alive()\<close>;
  \<open>t0\<close> is \<open>None\<close> or a clock reading. Left out are the fields no function below
  reads: the stop event, the error text, the connection flag, the download name and the
  chart handles.
\<close>

record session =
  reader_thread :: "bool option"
  t0 :: "rat option"
  q_parsed :: "row queue"
  data :: "row deque"
  all_rows :: "row list"
  plotted_n :: nat
  download_bytes :: string

definition RING :: nat where
  "RING = 4000"

definition session_default :: session where
  "session_default =
     \<lparr>reader_thread = None, t0 = None, q_parsed = Queue 20000 [], data = Deque RING [],
      all_rows = [], plotted_n = 0, download_bytes = []\<rparr>"

text \<open>Truth value of a float: every float but zero. Truth value of \<^verbatim>\<open>ss.t0\<close>.\<close>

definition truthy :: "pyfloat \<Rightarrow> bool" where
  "truthy x = (x \<noteq> Finite 0)"

definition t0_set :: "rat option \<Rightarrow> bool" where
  "t0_set s = (case s of None \<Rightarrow> False | Some x \<Rightarrow> x \<noteq> 0)"

text \<open>
  \<^verbatim>\<open>t_rel = (time.time() - ss.t0) if ss.t0 else (t if t else 0.0)\<close>, with \<open>now\<close> for what
  \<^verbatim>\<open>time.time()\<close> returns.
\<close>

definition t_rel :: "rat option \<Rightarrow> rat \<Rightarrow> pyfloat \<Rightarrow> pyfloat" where
  "t_rel s now t =
     (if t0_set s then Finite (now - the s) else (if truthy t then t else Finite 0))"

text \<open>
  The body of the inner loop of \<^verbatim>\<open>pump_queue_into_buffers\<close> (xiao_imu_ble_final.py,
  lines 323-327), for one record taken from the channel:
  \<^verbatim>\<open>
  t, ax, ay, az, gx, gy, gz = row
  t_rel = (time.time() - ss.t0) if ss.t0 else (t if t else 0.0)
  full = (t_rel, ax, ay, az, gx, gy, gz)
  ss.data.append(full)
  ss.all_rows.append(full)
  \<close>
\<close>

definition pump_row :: "rat \<Rightarrow> row \<Rightarrow> session \<Rightarrow> session" where
  "pump_row now row ss =
     (case row of (t, ax, ay, az, gx, gy, gz) \<Rightarrow>
        (let full = (t_rel (t0 ss) now t, ax, ay, az, gx, gy, gz) in
         ss\<lparr>data := deque_append (data ss) full, all_rows := all_rows ss @ [full]\<rparr>))"

text \<open>
  The same body in xiao_imu_stream.py (lines 169-173), where the device's \<open>t\<close> is not
  read:
  \<^verbatim>\<open>
  _, ax, ay, az, gx, gy, gz = row
  t_rel = time.time() - ss.t0 if ss.t0 else 0.0
  \<close>
\<close>

definition pump_row_stream :: "rat \<Rightarrow> row \<Rightarrow> session \<Rightarrow> session" where
  "pump_row_stream now row ss =
     (case row of (_, ax, ay, az, gx, gy, gz) \<Rightarrow>
        (let full = (if t0_set (t0 ss) then Finite (now - the (t0 ss)) else Finite 0,
                     ax, ay, az, gx, gy, gz) in
         ss\<lparr>data := deque_append (data ss) full, all_rows := all_rows ss @ [full]\<rparr>))"

text \<open>
  The wall clock: \<open>clk i\<close> is what the \<open>i\<close>-th call of \<^verbatim>\<open>time.time()\<close> of a pump
  returns.
\<close>

type_synonym clock = "nat \<Rightarrow> rat"

text \<open>A clock that stands still at \<open>c\<close>, for the examples.\<close>

definition steady :: "rat \<Rightarrow> clock" where
  "steady c = (\<lambda>i. c)"

text \<open>
  The inner loop: records are taken until the channel is empty; it returns the session
  and \<^verbatim>\<open>added\<close>.
  \<^verbatim>\<open>
  while True:
      try: row = ss.q_parsed.get_nowait()
      except queue.Empty: break
      ...
      added += 1
  \<close>
\<close>

function drain :: "clock \<Rightarrow> nat \<Rightarrow> session \<Rightarrow> session \<times> nat" where
  "drain clk i ss =
     (case get_nowait (q_parsed ss) of
        None \<Rightarrow> (ss, 0)
      | Some (row, q') \<Rightarrow>
          (let (ss', added) = drain clk (Suc i) (pump_row (clk i) row (ss\<lparr>q_parsed := q'\<rparr>))
           in (ss', added + 1)))"
  by pat_completeness auto

termination
  apply (relation "measure (\<lambda>(clk, i, ss). length (entries (q_parsed ss)))")
   apply simp
  apply (auto simp: get_nowait_def pump_row_def Let_def split: list.splits prod.splits)
  done

declare drain.simps [simp del]

text \<open>
  For the proofs, what one run of the inner loop appends: the records of the channel in
  the order they were put, each with its time field replaced as \<open>t_rel\<close> says; the
  \<open>j\<close>-th of them is stamped with the clock reading \<open>clk (i + j)\<close>.
\<close>

fun stamped :: "clock \<Rightarrow> nat \<Rightarrow> rat option \<Rightarrow> row list \<Rightarrow> row list" where
  "stamped clk i s [] = []"
| "stamped clk i s ((t, r) # rows) = (t_rel s (clk i) t, r) # stamped clk (Suc i) s rows"

text \<open>
  What the reader thread does while the consumer sleeps: it delivers the records it has
  decoded in the meantime. Delivery never raises (lemma \<open>deliver_all_total\<close>), so the first
  branch is never taken.
\<close>

definition reader_relays :: "row list \<Rightarrow> session \<Rightarrow> session" where
  "reader_relays rows ss =
     (case deliver_all (q_parsed ss) (map Some rows) of
        Inl e \<Rightarrow> ss
      | Inr q \<Rightarrow> ss\<lparr>q_parsed := q\<rparr>)"

text \<open>
  The outer loop of \<^verbatim>\<open>pump_queue_into_buffers\<close>, \<open>n\<close> rounds left; \<open>arr\<close> lists, sleep by
  sleep, the records the reader thread decodes during \<^verbatim>\<open>time.sleep(0.01)\<close>.
  \<^verbatim>\<open>
  for _ in range(max(1, repeat)):
      added = 0
      ...
      total += added
      if added == 0: break
      time.sleep(0.01)
  return total
  \<close>
\<close>

fun pump_rounds :: "clock \<Rightarrow> nat \<Rightarrow> nat \<Rightarrow> row list list \<Rightarrow> session \<Rightarrow> session \<times> nat" where
  "pump_rounds clk i 0 arr ss = (ss, 0)"
| "pump_rounds clk i (Suc n) arr ss =
     (let (ss1, added) = drain clk i ss in
      if added = 0 then (ss1, 0)
      else (let ss2 = reader_relays (case arr of [] \<Rightarrow> [] | a # _ \<Rightarrow> a) ss1;
                (ss3, total) = pump_rounds clk (i + added) n (tl arr) ss2
            in (ss3, added + total)))"

definition pump_queue_into_buffers :: "clock \<Rightarrow> row list list \<Rightarrow> int \<Rightarrow> session \<Rightarrow> session \<times> nat" where
  "pump_queue_into_buffers clk arr repeat ss = pump_rounds clk 0 (nat (max 1 repeat)) arr ss"

text \<open>
  \<^verbatim>\<open>start_reader\<close> (xiao_imu_ble_final.py, lines 262-298): nothing happens when a
  reader thread is alive; otherwise ring, accumulator and download are cleared, \<open>t0\<close> is
  set to the clock reading \<open>now\<close>, a thread is started, and after the waits, in which the
  thread relays the records \<open>seed\<close>, the channel is pumped with \<^verbatim>\<open>repeat=3\<close>.
\<close>

definition start_reader :: "rat \<Rightarrow> clock \<Rightarrow> row list \<Rightarrow> row list list \<Rightarrow> session \<Rightarrow> session" where
  "start_reader now clk seed arr ss =
     (if reader_thread ss = Some True then ss
      else (let ss1 = ss\<lparr>data := deque_clear (data ss), all_rows := [], download_bytes := [],
                         plotted_n := 0, t0 := Some now, reader_thread := Some True\<rparr>;
                ss2 = reader_relays seed ss1
            in fst (pump_queue_into_buffers clk arr 3 ss2)))"

text \<open>
  \<^verbatim>\<open>stop_reader_and_save\<close> (lines 300-312): the thread is stopped and forgotten, and a
  non-empty accumulator is written to the download as CSV. \<open>to_csv\<close> stands for
  \<^verbatim>\<open>pd.DataFrame(rows, columns=...).to_csv(index=False).encode("utf-8")\<close>.
\<close>

definition stop_reader_and_save :: "(row list \<Rightarrow> string) \<Rightarrow> session \<Rightarrow> session" where
  "stop_reader_and_save to_csv ss =
     (let ss1 = ss\<lparr>reader_thread := None\<rparr> in
      if all_rows ss1 \<noteq> [] then ss1\<lparr>download_bytes := to_csv (all_rows ss1)\<rparr> else ss1)"

text \<open>
  The session of xiao_usb_live.py: the ring \<open>parsed\<close>, the channel, and the log with its
  switch. Its \<^verbatim>\<open>start_reader\<close> (lines 154-183) clears the ring and the counters and leaves
  the log (``do not clear log here so you can keep logging across reconnects if
  desired''); \<^verbatim>\<open>pump_queues\<close> (lines 196-221) appends every record to the ring, and to
  the log when logging is on; the button ``Reset log'' (line 251) empties the log.
\<close>

record live_session =
  live_reader_thread :: "bool option"
  live_q_parsed :: "pyfloat list queue"
  parsed :: "pyfloat list deque"
  logging :: bool
  log_rows :: "pyfloat list list"

definition start_reader_live :: "live_session \<Rightarrow> live_session" where
  "start_reader_live ss =
     (if live_reader_thread ss = Some True then ss
      else ss\<lparr>parsed := deque_clear (parsed ss), live_reader_thread := Some True\<rparr>)"

definition stop_reader_live :: "live_session \<Rightarrow> live_session" where
  "stop_reader_live ss = ss\<lparr>live_reader_thread := None\<rparr>"

function pump_queues :: "live_session \<Rightarrow> live_session" where
  "pump_queues ss =
     (case get_nowait (live_q_parsed ss) of
        None \<Rightarrow> ss
      | Some (row, q') \<Rightarrow>
          pump_queues
            (ss\<lparr>live_q_parsed := q', parsed := deque_append (parsed ss) row,
                log_rows := (if logging ss then log_rows ss @ [row] else log_rows ss)\<rparr>))"
  by pat_completeness auto

termination
  apply (relation "measure (\<lambda>ss. length (entries (live_q_parsed ss)))")
   apply simp
  apply (auto simp: get_nowait_def split: list.splits)
  done

declare pump_queues.simps [simp del]

text \<open>A record for the examples: time field \<open>t\<close>, the six sensor values all \<open>v\<close>.\<close>

definition sample :: "rat \<Rightarrow> rat \<Rightarrow> row" where
  "sample t v = (Finite t, Finite v, Finite v, Finite v, Finite v, Finite v, Finite v)"

section \<open>Command and reply\<close>

text \<open>
  The \<^verbatim>\<open>BLEManager\<close> of controll_LEDs_BLE.py, as far as \<^verbatim>\<open>send_and_wait\<close> needs it:
  whether there is a connected client, and the single cell \<^verbatim>\<open>last_reply\<close>.
\<close>

record ble_manager =
  client_connected :: bool
  last_reply :: string

text \<open>
  \<^verbatim>\<open>_notify\<close> (lines 51-55), run by the BLE thread for every notification; \<open>text\<close> is
  the decoded payload, \<^verbatim>\<open>data.decode(errors="ignore")\<close>. The cell is overwritten.
\<close>

definition notify :: "string \<Rightarrow> ble_manager \<Rightarrow> ble_manager" where
  "notify text b = b\<lparr>last_reply := strip text\<rparr>"

text \<open>
  \<^verbatim>\<open>send\<close> (lines 84-90): it raises when there is no connected client, clears the cell,
  and writes. \<open>wr\<close> is the outcome of the write: \<open>None\<close> when it returns, the exception
  when it raises.
\<close>

definition send :: "exn option \<Rightarrow> ble_manager \<Rightarrow> exn + ble_manager" where
  "send wr b =
     (if \<not> client_connected b then Inl RuntimeError
      else (let b' = b\<lparr>last_reply := []\<rparr> in
            case wr of Some e \<Rightarrow> Inl e | None \<Rightarrow> Inr b'))"

text \<open>
  Time is a logical clock, in seconds. It advances only in \<^verbatim>\<open>time.sleep(0.02)\<close>; a sleep
  lasts 0.02 s and \<open>late\<close> more, and in it the BLE thread runs \<^verbatim>\<open>_notify\<close> on the
  notifications \<open>msgs\<close> that arrive, in their order. A tick is what one sleep brings.
\<close>

type_synonym tick = "rat \<times> string list"

text \<open>
  The loop of \<^verbatim>\<open>send_and_wait\<close> (lines 95-100), with \<open>now\<close> for the reading of
  \<^verbatim>\<open>time.perf_counter()\<close>:
  \<^verbatim>\<open>
  while time.perf_counter() - t0 < timeout_s:
      if self.last_reply:
          return self.last_reply
      time.sleep(0.02)
  return "(no reply)"
  \<close>
  It returns the text and the clock reading at the return; \<open>None\<close> says that the ticks
  given do not reach the return.
\<close>

fun wait_loop :: "rat \<Rightarrow> rat \<Rightarrow> rat \<Rightarrow> tick list \<Rightarrow> ble_manager \<Rightarrow> (string \<times> rat) option" where
  "wait_loop timeout_s t_start now [] b =
     (if now - t_start < timeout_s
      then (if last_reply b \<noteq> [] then Some (last_reply b, now) else None)
      else Some (''(no reply)'', now))"
| "wait_loop timeout_s t_start now ((late, msgs) # ticks) b =
     (if now - t_start < timeout_s
      then (if last_reply b \<noteq> [] then Some (last_reply b, now)
            else wait_loop timeout_s t_start (now + 1 / 50 + late) ticks (fold notify msgs b))
      else Some (''(no reply)'', now))"

text \<open>
  \<^verbatim>\<open>send_and_wait\<close> (lines 92-100): \<open>early\<close> are the notifications that arrive during
  the write, after the cell was cleared; \<open>t_start\<close> is the first clock reading.
\<close>

definition send_and_wait ::
  "exn option \<Rightarrow> string list \<Rightarrow> rat \<Rightarrow> rat \<Rightarrow> tick list \<Rightarrow> ble_manager \<Rightarrow> (exn + string \<times> rat) option" where
  "send_and_wait wr early timeout_s t_start ticks b =
     (case send wr b of
        Inl e \<Rightarrow> Some (Inl e)
      | Inr b' \<Rightarrow> map_option Inr (wait_loop timeout_s t_start t_start ticks (fold notify early b')))"

text \<open>
  For the proofs, the polls the loop would make if it never returned: the clock reading
  and the content of the cell at each.
\<close>

fun polls :: "rat \<Rightarrow> tick list \<Rightarrow> ble_manager \<Rightarrow> (rat \<times> string) list" where
  "polls now [] b = [(now, last_reply b)]"
| "polls now ((late, msgs) # ticks) b =
     (now, last_reply b) # polls (now + 1 / 50 + late) ticks (fold notify msgs b)"

section \<open>Properties of the line framer\<close>

lemma LF_neq_CR [simp]: "LF \<noteq> CR" "CR \<noteq> LF"
  by (simp_all add: LF_def CR_def)

lemma is_term_simps [simp]: "is_term LF" "is_term CR"
  by (simp_all add: is_term_def)

lemma find_byte_takeWhile:
  "find_byte xs b = (if b \<in> set xs then int (length (takeWhile (\<lambda>x. x \<noteq> b) xs)) else - 1)"
  by (induction xs) (auto simp: Let_def)

lemma find_term_takeWhile:
  "find_term xs =
     (if \<exists>x\<in>set xs. is_term x then int (length (takeWhile (\<lambda>x. \<not> is_term x) xs)) else - 1)"
proof (induction xs)
  case Nil
  show ?case by (simp add: find_term_def)
next
  case (Cons a xs)
  show ?case
    using Cons
    by (auto simp: find_term_def find_byte_takeWhile is_term_def Let_def min_def split: if_splits)
qed

lemma find_term_none: "\<forall>x\<in>set xs. \<not> is_term x \<Longrightarrow> find_term xs = - 1"
  by (simp add: find_term_takeWhile)

lemma find_term_at:
  "\<forall>x\<in>set u. \<not> is_term x \<Longrightarrow> is_term t \<Longrightarrow> find_term (u @ t # rest) = int (length u)"
  by (simp add: find_term_takeWhile takeWhile_append2)

lemma drop_count_val:
  "nat (drop_count (u @ t # rest) (int (length u))) =
     (case rest of [] \<Rightarrow> Suc (length u)
      | x # r \<Rightarrow> if is_term x then Suc (Suc (length u)) else Suc (length u))"
  by (cases rest) (auto simp: drop_count_def is_term_def Let_def nat_add_distrib)

lemma drop_count_at:
  "drop (nat (drop_count (u @ t # rest) (int (length u)))) (u @ t # rest) = skip1 rest"
  unfolding drop_count_val by (cases rest) (auto simp: skip1_def)

lemma frame_loop_no_term: "\<forall>x\<in>set xs. \<not> is_term x \<Longrightarrow> frame_loop xs = ([], xs)"
  by (simp add: frame_loop.simps [of xs] find_term_none)

lemma frame_loop_Nil [simp]: "frame_loop [] = ([], [])"
  by (simp add: frame_loop_no_term)

text \<open>One round of the loop, on a buffer split at its first terminator.\<close>

lemma frame_loop_step:
  assumes "\<forall>x\<in>set u. \<not> is_term x" and "is_term t"
  shows "frame_loop (u @ t # rest) = (u # fst (frame_loop (skip1 rest)), snd (frame_loop (skip1 rest)))"
  using assms
  by (subst frame_loop.simps)
     (simp add: find_term_at drop_count_at Let_def split: prod.splits del: drop_append)

lemma length_skip1: "length (skip1 rest) \<le> length rest"
  by (cases rest) (auto simp: skip1_def)

lemma skip1_append: "rest \<noteq> [] \<Longrightarrow> skip1 (rest @ s) = skip1 rest @ s"
  by (cases rest) (auto simp: skip1_def)

lemma skip1_no_term: "s = [] \<or> \<not> is_term (hd s) \<Longrightarrow> skip1 s = s"
  by (cases s) (auto simp: skip1_def)

lemma last_skip1: "skip1 rest \<noteq> [] \<Longrightarrow> last (skip1 rest) = last rest"
  by (cases rest) (auto simp: skip1_def split: if_splits)

subsection \<open>The reference splitter\<close>

lemma split_all_no_term: "\<forall>x\<in>set u. \<not> is_term x \<Longrightarrow> split_all u = ([], u)"
  by (induction u) auto

lemma split_all_step:
  "\<forall>x\<in>set u. \<not> is_term x \<Longrightarrow> is_term t \<Longrightarrow>
   split_all (u @ t # rest) = (u # fst (split_all rest), snd (split_all rest))"
  by (induction u) (auto split: prod.splits)

lemma split_all_append:
  "split_all (x @ s) =
     (fst (split_all x) @ fst (split_all (snd (split_all x) @ s)),
      snd (split_all (snd (split_all x) @ s)))"
  by (induction x) (auto split: prod.splits list.splits)

lemma split_all_rest_no_term: "\<forall>c\<in>set (snd (split_all x)). \<not> is_term c"
  by (induction x) (auto split: prod.splits list.splits)

lemma split_all_skip1:
  "filter (\<lambda>f. f \<noteq> []) (fst (split_all (skip1 rest))) = filter (\<lambda>f. f \<noteq> []) (fst (split_all rest))
   \<and> snd (split_all (skip1 rest)) = snd (split_all rest)"
  by (cases rest) (auto simp: skip1_def split: prod.splits)

text \<open>
  The loop and the reference splitter agree on the non-empty frames and on the bytes
  left in the buffer.
\<close>

lemma frame_loop_split_all:
  "filter (\<lambda>f. f \<noteq> []) (fst (frame_loop x)) = filter (\<lambda>f. f \<noteq> []) (fst (split_all x))
   \<and> snd (frame_loop x) = snd (split_all x)"
proof (induction x rule: length_induct)
  case (1 x)
  show ?case
  proof (cases "\<exists>c\<in>set x. is_term c")
    case False
    then show ?thesis by (simp add: frame_loop_no_term split_all_no_term)
  next
    case True
    then obtain u t rest where x: "x = u @ t # rest" and t: "is_term t"
      and u: "\<forall>c\<in>set u. \<not> is_term c"
      using split_list_first_prop [of x is_term] by blast
    have "length (skip1 rest) < length x"
      using length_skip1 [of rest] x by simp
    with 1 have ih:
      "filter (\<lambda>f. f \<noteq> []) (fst (frame_loop (skip1 rest)))
         = filter (\<lambda>f. f \<noteq> []) (fst (split_all (skip1 rest)))
       \<and> snd (frame_loop (skip1 rest)) = snd (split_all (skip1 rest))" by blast
    show ?thesis
      unfolding x frame_loop_step [OF u t] split_all_step [OF u t]
      using ih split_all_skip1 [of rest] by simp
  qed
qed

lemma frame_loop_rest_no_term: "\<forall>c\<in>set (snd (frame_loop x)). \<not> is_term c"
  using frame_loop_split_all [of x] split_all_rest_no_term [of x] by simp

subsection \<open>Chunked delivery\<close>

lemma feed_all_split_all:
  "\<forall>x\<in>set b. \<not> is_term x \<Longrightarrow>
   filter (\<lambda>f. f \<noteq> []) (fst (feed_all b cs)) = filter (\<lambda>f. f \<noteq> []) (fst (split_all (b @ concat cs)))
   \<and> snd (feed_all b cs) = snd (split_all (b @ concat cs))"
proof (induction cs arbitrary: b)
  case Nil
  then show ?case by (simp add: split_all_no_term)
next
  case (Cons c cs)
  obtain fs r where f: "frame_loop (b @ c) = (fs, r)" by (cases "frame_loop (b @ c)")
  have r: "\<forall>x\<in>set r. \<not> is_term x"
    using frame_loop_rest_no_term [of "b @ c"] f by simp
  have fl: "filter (\<lambda>f. f \<noteq> []) fs = filter (\<lambda>f. f \<noteq> []) (fst (split_all (b @ c)))"
    "r = snd (split_all (b @ c))"
    using frame_loop_split_all [of "b @ c"] f by simp_all
  from Cons.IH [OF r] fl
  show ?case
    using split_all_append [of "b @ c" "concat cs"]
    by (auto simp: feed_def f split: prod.splits)
qed

lemma splits_ok_hd:
  "splits_ok True cs \<Longrightarrow> concat cs \<noteq> [] \<Longrightarrow> \<not> is_term (hd (concat cs))"
  by (induction cs) (auto split: if_splits)

text \<open>
  Bytes appended to a buffer do not change the frames already cut from it, unless the
  buffer ends in a terminator and the appended bytes start with one.
\<close>

lemma frame_loop_append:
  "\<not> (x \<noteq> [] \<and> is_term (last x) \<and> s \<noteq> [] \<and> is_term (hd s)) \<Longrightarrow>
   frame_loop (x @ s) =
     (fst (frame_loop x) @ fst (frame_loop (snd (frame_loop x) @ s)),
      snd (frame_loop (snd (frame_loop x) @ s)))"
proof (induction x rule: length_induct)
  case (1 x)
  show ?case
  proof (cases "\<exists>c\<in>set x. is_term c")
    case False
    then show ?thesis by (simp add: frame_loop_no_term)
  next
    case True
    then obtain u t rest where x: "x = u @ t # rest" and t: "is_term t"
      and u: "\<forall>c\<in>set u. \<not> is_term c"
      using split_list_first_prop [of x is_term] by blast
    show ?thesis
    proof (cases "rest = []")
      case True
      with 1(2) x t have "s = [] \<or> \<not> is_term (hd s)" by auto
      then have "skip1 s = s" by (rule skip1_no_term)
      then show ?thesis
        using frame_loop_step [OF u t, of "[]"] frame_loop_step [OF u t, of s] True x
        by (simp add: skip1_def)
    next
      case False
      have len: "length (skip1 rest) < length x"
        using length_skip1 [of rest] x by simp
      have bd: "\<not> (skip1 rest \<noteq> [] \<and> is_term (last (skip1 rest)) \<and> s \<noteq> [] \<and> is_term (hd s))"
        using 1(2) x False last_skip1 [of rest] by auto
      from 1(1) len bd have ih: "frame_loop (skip1 rest @ s) =
         (fst (frame_loop (skip1 rest)) @ fst (frame_loop (snd (frame_loop (skip1 rest)) @ s)),
          snd (frame_loop (snd (frame_loop (skip1 rest)) @ s)))" by blast
      have "frame_loop (x @ s) = frame_loop (u @ t # (rest @ s))" by (simp add: x)
      also have "\<dots> = (u # fst (frame_loop (skip1 rest @ s)), snd (frame_loop (skip1 rest @ s)))"
        by (simp add: frame_loop_step [OF u t] skip1_append [OF False])
      finally show ?thesis
        using ih by (simp add: x frame_loop_step [OF u t, of rest])
    qed
  qed
qed

lemma feed_all_whole:
  "splits_ok prev cs \<Longrightarrow> \<forall>x\<in>set b. \<not> is_term x \<Longrightarrow>
   feed_all b cs = frame_loop (b @ concat cs)"
proof (induction cs arbitrary: b prev)
  case Nil
  then show ?case by (simp add: frame_loop_no_term)
next
  case (Cons c cs)
  obtain fs r where f: "frame_loop (b @ c) = (fs, r)" by (cases "frame_loop (b @ c)")
  have r: "\<forall>x\<in>set r. \<not> is_term x"
    using frame_loop_rest_no_term [of "b @ c"] f by auto
  define prev' where "prev' = (if c = [] then prev else is_term (last c))"
  have ok: "splits_ok prev' cs"
    using Cons.prems(1) by (simp add: prev'_def split: if_splits)
  have ih: "feed_all r cs = frame_loop (r @ concat cs)"
    using Cons.IH [OF ok r] .
  have lastp: "b @ c \<noteq> [] \<and> is_term (last (b @ c)) \<longrightarrow> prev' \<and> c \<noteq> []"
    using Cons.prems(2) by (auto simp: prev'_def)
  have bd: "\<not> (b @ c \<noteq> [] \<and> is_term (last (b @ c)) \<and> concat cs \<noteq> [] \<and> is_term (hd (concat cs)))"
  proof
    assume a: "b @ c \<noteq> [] \<and> is_term (last (b @ c)) \<and> concat cs \<noteq> [] \<and> is_term (hd (concat cs))"
    with lastp have "prev'" by blast
    with ok have "splits_ok True cs" by simp
    from splits_ok_hd [OF this] a show False by blast
  qed
  show ?case
    using frame_loop_append [OF bd] ih by (simp add: feed_def f split: prod.splits)
qed

text \<open>No emitted frame holds a terminator byte.\<close>

lemma frame_loop_frames_no_term:
  "\<forall>f\<in>set (fst (frame_loop x)). \<forall>c\<in>set f. \<not> is_term c"
proof (induction x rule: length_induct)
  case (1 x)
  show ?case
  proof (cases "\<exists>c\<in>set x. is_term c")
    case False
    then show ?thesis by (simp add: frame_loop_no_term)
  next
    case True
    then obtain u t rest where x: "x = u @ t # rest" and t: "is_term t"
      and u: "\<forall>c\<in>set u. \<not> is_term c"
      using split_list_first_prop [of x is_term] by blast
    have "length (skip1 rest) < length x"
      using length_skip1 [of rest] x by simp
    with 1 have "\<forall>f\<in>set (fst (frame_loop (skip1 rest))). \<forall>c\<in>set f. \<not> is_term c" by blast
    then show ?thesis
      unfolding x frame_loop_step [OF u t] using u by simp
  qed
qed

lemma frames_clean:
  "list_all (\<lambda>f. list_all (\<lambda>c. \<not> is_term c) f) (fst (feed buffer chunk))"
  using frame_loop_frames_no_term [of "buffer @ chunk"]
  by (simp add: feed_def list_all_iff)

lemma feed_all_frames_clean:
  "list_all (\<lambda>f. list_all (\<lambda>c. \<not> is_term c) f) (fst (feed_all buffer cs))"
proof (induction cs arbitrary: buffer)
  case Nil
  show ?case by simp
next
  case (Cons c cs)
  obtain fs r where f: "feed buffer c = (fs, r)" by (cases "feed buffer c")
  obtain fs' r' where g: "feed_all r cs = (fs', r')" by (cases "feed_all r cs")
  have 1: "list_all (\<lambda>f. list_all (\<lambda>c. \<not> is_term c) f) fs"
    using frames_clean [of buffer c] f by simp
  have 2: "list_all (\<lambda>f. list_all (\<lambda>c. \<not> is_term c) f) fs'"
    using Cons.IH [of r] g by simp
  from 1 2 show ?case by (simp add: f g)
qed

section \<open>Claims about the line framer\<close>

text \<open>
  C4 (CRLF collapse), as amended. One call of the framer on the stream \<^verbatim>\<open>a\r\nb\r\n\<close>,
  from an empty buffer, emits exactly the two frames \<^verbatim>\<open>a\<close> and \<^verbatim>\<open>b\<close> and leaves
  nothing buffered. However the stream is cut into chunks, the non-empty frames are
  exactly \<^verbatim>\<open>a\<close> and \<^verbatim>\<open>b\<close> and nothing stays buffered, and the frames are exactly these
  two when no chunk boundary separates two adjacent terminator bytes. No emitted frame
  holds a terminator byte, whatever the buffer and the chunks.
\<close>

theorem crlf_collapse:
  "feed [] [CHR ''a'', CR, LF, CHR ''b'', CR, LF] = ([[CHR ''a''], [CHR ''b'']], [])
   \<and> (concat cs = [CHR ''a'', CR, LF, CHR ''b'', CR, LF] \<longrightarrow>
        filter (\<lambda>f. f \<noteq> []) (fst (feed_all [] cs)) = [[CHR ''a''], [CHR ''b'']]
        \<and> snd (feed_all [] cs) = []
        \<and> (splits_ok False cs \<longrightarrow> feed_all [] cs = ([[CHR ''a''], [CHR ''b'']], [])))
   \<and> list_all (\<lambda>f. list_all (\<lambda>c. c \<noteq> LF \<and> c \<noteq> CR) f) (fst (feed_all buffer ds))
   \<and> list_all (\<lambda>f. list_all (\<lambda>c. c \<noteq> LF \<and> c \<noteq> CR) f) (fst (feed buffer chunk))"
proof -
  have e: "feed [] [CHR ''a'', CR, LF, CHR ''b'', CR, LF] = ([[CHR ''a''], [CHR ''b'']], [])"
    by code_simp
  have a: "filter (\<lambda>f. f \<noteq> []) (fst (feed_all [] cs)) = filter (\<lambda>f. f \<noteq> []) (fst (feed [] (concat cs)))
    \<and> snd (feed_all [] cs) = snd (feed [] (concat cs))"
    using feed_all_split_all [of "[]" cs] frame_loop_split_all [of "concat cs"]
    by (simp add: feed_def)
  have b: "splits_ok False cs \<longrightarrow> feed_all [] cs = feed [] (concat cs)"
    using feed_all_whole [of False cs "[]"] by (simp add: feed_def)
  have c: "concat cs = [CHR ''a'', CR, LF, CHR ''b'', CR, LF] \<longrightarrow>
        filter (\<lambda>f. f \<noteq> []) (fst (feed_all [] cs)) = [[CHR ''a''], [CHR ''b'']]
        \<and> snd (feed_all [] cs) = []
        \<and> (splits_ok False cs \<longrightarrow> feed_all [] cs = ([[CHR ''a''], [CHR ''b'']], []))"
  proof
    assume s: "concat cs = [CHR ''a'', CR, LF, CHR ''b'', CR, LF]"
    from a b show "filter (\<lambda>f. f \<noteq> []) (fst (feed_all [] cs)) = [[CHR ''a''], [CHR ''b'']]
        \<and> snd (feed_all [] cs) = []
        \<and> (splits_ok False cs \<longrightarrow> feed_all [] cs = ([[CHR ''a''], [CHR ''b'']], []))"
      unfolding s e by simp
  qed
  have g: "list_all (\<lambda>f. list_all (\<lambda>c. c \<noteq> LF \<and> c \<noteq> CR) f) (fst (feed_all buffer ds))"
    using feed_all_frames_clean [of buffer ds] by (simp add: is_term_def)
  have h: "list_all (\<lambda>f. list_all (\<lambda>c. c \<noteq> LF \<and> c \<noteq> CR) f) (fst (feed buffer chunk))"
    using frames_clean [of buffer chunk] by (simp add: is_term_def)
  show ?thesis by (intro conjI e c g h)
qed

theorem crlf_collapse_witness:
  "concat [[CHR ''a''], [CR], [LF, CHR ''b'', CR], [LF]] = [CHR ''a'', CR, LF, CHR ''b'', CR, LF]
   \<and> filter (\<lambda>f. f \<noteq> []) (fst (feed_all [] [[CHR ''a''], [CR], [LF, CHR ''b'', CR], [LF]]))
       = [[CHR ''a''], [CHR ''b'']]
   \<and> snd (feed_all [] [[CHR ''a''], [CR], [LF, CHR ''b'', CR], [LF]]) = []
   \<and> concat [[CHR ''a'', CR, LF], [CHR ''b''], [CR, LF]] = [CHR ''a'', CR, LF, CHR ''b'', CR, LF]
   \<and> splits_ok False [[CHR ''a'', CR, LF], [CHR ''b''], [CR, LF]]
   \<and> feed_all [] [[CHR ''a'', CR, LF], [CHR ''b''], [CR, LF]] = ([[CHR ''a''], [CHR ''b'']], [])"
proof -
  have c1: "concat [[CHR ''a''], [CR], [LF, CHR ''b'', CR], [LF]] = [CHR ''a'', CR, LF, CHR ''b'', CR, LF]"
    by simp
  have c2: "concat [[CHR ''a'', CR, LF], [CHR ''b''], [CR, LF]] = [CHR ''a'', CR, LF, CHR ''b'', CR, LF]"
    by simp
  have s: "splits_ok False [[CHR ''a'', CR, LF], [CHR ''b''], [CR, LF]]"
    by code_simp
  from crlf_collapse [of "[[CHR ''a''], [CR], [LF, CHR ''b'', CR], [LF]]"] c1
  have w1: "filter (\<lambda>f. f \<noteq> []) (fst (feed_all [] [[CHR ''a''], [CR], [LF, CHR ''b'', CR], [LF]]))
       = [[CHR ''a''], [CHR ''b'']]
     \<and> snd (feed_all [] [[CHR ''a''], [CR], [LF, CHR ''b'', CR], [LF]]) = []"
    by blast
  from crlf_collapse [of "[[CHR ''a'', CR, LF], [CHR ''b''], [CR, LF]]"] c2 s
  have w2: "feed_all [] [[CHR ''a'', CR, LF], [CHR ''b''], [CR, LF]] = ([[CHR ''a''], [CHR ''b'']], [])"
    by blast
  show ?thesis by (intro conjI c1 c2 s conjunct1 [OF w1] conjunct2 [OF w1] w2)
qed

text \<open>
  The claim as stated fails when the stream arrives cut between \<^verbatim>\<open>\r\<close> and \<^verbatim>\<open>\n\<close>:
  the first call emits \<^verbatim>\<open>a\<close> and finds no byte to look at after the \<^verbatim>\<open>\r\<close>, and the
  second call takes the \<^verbatim>\<open>\n\<close> for a terminator of its own. Three frames are emitted,
  the second one empty.
\<close>

theorem crlf_split_counterexample:
  "concat [[CHR ''a'', CR], [LF, CHR ''b'', CR, LF]] = [CHR ''a'', CR, LF, CHR ''b'', CR, LF]
   \<and> feed_all [] [[CHR ''a'', CR], [LF, CHR ''b'', CR, LF]] = ([[CHR ''a''], [], [CHR ''b'']], [])
   \<and> length (fst (feed_all [] [[CHR ''a'', CR], [LF, CHR ''b'', CR, LF]])) = 3"
  by code_simp

text \<open>
  C1 (chunking), as amended. For every way of cutting a stream into chunks, feeding the
  chunks one call after the other emits the same non-empty frames, in the same order, as
  feeding the whole stream in one call, and leaves the same bytes buffered. The full frame
  sequences are equal as well when no chunk boundary separates two adjacent terminator
  bytes.
\<close>

theorem chunking:
  "filter (\<lambda>f. f \<noteq> []) (fst (feed_all [] cs)) = filter (\<lambda>f. f \<noteq> []) (fst (feed [] (concat cs)))
   \<and> snd (feed_all [] cs) = snd (feed [] (concat cs))
   \<and> (splits_ok False cs \<longrightarrow> feed_all [] cs = feed [] (concat cs))"
proof -
  have a: "filter (\<lambda>f. f \<noteq> []) (fst (feed_all [] cs)) = filter (\<lambda>f. f \<noteq> []) (fst (feed [] (concat cs)))
    \<and> snd (feed_all [] cs) = snd (feed [] (concat cs))"
    using feed_all_split_all [of "[]" cs] frame_loop_split_all [of "concat cs"]
    by (simp add: feed_def)
  have b: "splits_ok False cs \<longrightarrow> feed_all [] cs = feed [] (concat cs)"
    using feed_all_whole [of False cs "[]"] by (simp add: feed_def)
  from a b show ?thesis by blast
qed

theorem chunking_witness:
  "splits_ok False [[CHR ''a'', CR, LF], [CHR ''b''], [LF, CHR ''c'']]
   \<and> feed_all [] [[CHR ''a'', CR, LF], [CHR ''b''], [LF, CHR ''c'']]
       = feed [] [CHR ''a'', CR, LF, CHR ''b'', LF, CHR ''c'']
   \<and> feed_all [] [[CHR ''a'', CR, LF], [CHR ''b''], [LF, CHR ''c'']] = ([[CHR ''a''], [CHR ''b'']], [CHR ''c''])"
proof -
  have s: "splits_ok False [[CHR ''a'', CR, LF], [CHR ''b''], [LF, CHR ''c'']]"
    by code_simp
  have v: "feed [] [CHR ''a'', CR, LF, CHR ''b'', LF, CHR ''c''] = ([[CHR ''a''], [CHR ''b'']], [CHR ''c''])"
    by code_simp
  from chunking [of "[[CHR ''a'', CR, LF], [CHR ''b''], [LF, CHR ''c'']]"] s v
  show ?thesis by simp
qed

text \<open>
  The claim as stated fails when a boundary falls between \<^verbatim>\<open>\r\<close> and \<^verbatim>\<open>\n\<close>: the
  look-ahead of the first call finds the buffer exhausted, and the second call meets the
  \<^verbatim>\<open>\n\<close> as a terminator of its own and emits an empty frame.
\<close>

theorem chunking_counterexample:
  "fst (feed_all [] [[CHR ''a'', CR], [LF, CHR ''b'', LF]]) = [[CHR ''a''], [], [CHR ''b'']]
   \<and> fst (feed [] (concat [[CHR ''a'', CR], [LF, CHR ''b'', LF]])) = [[CHR ''a''], [CHR ''b'']]
   \<and> feed_all [] [[CHR ''a'', CR], [LF, CHR ''b'', LF]] \<noteq> feed [] (concat [[CHR ''a'', CR], [LF, CHR ''b'', LF]])"
  by code_simp




section \<open>Properties of the record decoders\<close>

text \<open>The only exception \<^verbatim>\<open>float\<close> raises on a string is \<^verbatim>\<open>ValueError\<close>.\<close>

lemma py_float_raises: "py_float s = Inl e \<Longrightarrow> e = ValueError"
  by (auto simp: py_float_def Let_def split: prod.splits if_splits option.splits)

lemma floats_raises: "floats xs = Inl e \<Longrightarrow> e = ValueError"
  by (induction xs arbitrary: e) (auto split: sum.splits dest: py_float_raises)

lemma floats_length: "floats xs = Inr vs \<Longrightarrow> length vs = length xs"
  by (induction xs arbitrary: vs) (auto split: sum.splits)

lemma length_three: "length vals = 3 \<Longrightarrow> \<exists>a b c. vals = [a, b, c]"
  by (auto simp: numeral_3_eq_3 length_Suc_conv)

lemma try_parse_usb_body_len:
  "try_parse_usb_body line = Inr (Some vals) \<Longrightarrow> length vals = 3"
  by (auto simp: try_parse_usb_body_def split: sum.splits if_splits)

lemma try_parse_usb_total:
  "\<exists>r. try_parse_usb line = Inr r \<and> (r = None \<or> (\<exists>a b c. r = Some [a, b, c]))"
proof (cases "try_parse_usb_body line")
  case (Inl e)
  then show ?thesis by (simp add: try_parse_usb_def)
next
  case (Inr r)
  show ?thesis
  proof (cases r)
    case None
    with Inr show ?thesis by (simp add: try_parse_usb_def)
  next
    case (Some vals)
    with Inr have "\<exists>a b c. vals = [a, b, c]"
      by (intro length_three try_parse_usb_body_len [of line]) simp
    with Inr Some show ?thesis by (simp add: try_parse_usb_def)
  qed
qed

lemma parse_line_ble_total: "\<exists>r. parse_line_ble line = Inr r"
  by (auto simp: parse_line_ble_def except_ValueError_def Let_def
      split: sum.splits dest: py_float_raises)

text \<open>The seven-field decoders return on every line.\<close>

lemma kv_loop_total: "\<exists>r. kv_loop toks kv = Inr r"
proof (induction toks arbitrary: kv)
  case Nil
  show ?case by simp
next
  case (Cons tok toks)
  show ?case
  proof (cases "CHR '':'' \<in> set tok \<and> fst (split_colon tok) \<in> set EXPECTED_KEYS")
    case False
    with Cons.IH [of kv] show ?thesis by (auto simp: Let_def split: prod.splits)
  next
    case True
    obtain k v where s: "split_colon tok = (k, v)" by (cases "split_colon tok")
    show ?thesis
    proof (cases "py_float v")
      case (Inl e)
      with py_float_raises [OF Inl] True s show ?thesis by simp
    next
      case (Inr x)
      from Cons.IH [of "kv(k \<mapsto> x)"] obtain r where r: "kv_loop toks (kv(k \<mapsto> x)) = Inr r" ..
      have "kv_loop (tok # toks) kv = kv_loop toks (kv(k \<mapsto> x))"
        using True s Inr by simp
      with r show ?thesis by simp
    qed
  qed
qed

lemma kv_branch_total: "\<exists>r. kv_branch s = Inr r"
  using kv_loop_total [of "split_ws s" Map.empty]
  by (auto simp: kv_branch_def split: option.splits)

lemma except_floats_total:
  "\<exists>r. except_ValueError (case floats xs of Inl e \<Rightarrow> Inl e | Inr vals \<Rightarrow> Inr (f vals)) = Inr r"
  by (cases "floats xs") (auto simp: except_ValueError_def dest: floats_raises)

lemma parse_csv_line_total: "\<exists>r. parse_csv_line line = Inr r"
  using kv_branch_total [of "strip line"]
    except_floats_total [where xs = "take 7 (split_on (CHR '','') (strip line))" and f = row_of_list]
  by (simp add: parse_csv_line_def Let_def)

lemma parse_line_stream_total: "\<exists>r. parse_line_stream line = Inr r"
  using kv_branch_total [of "strip line"]
  by (simp add: parse_line_stream_def Let_def)

section \<open>Claims about the record decoders\<close>

text \<open>
  C3 (three-field decoding). Both three-field decoders, \<^verbatim>\<open>try_parse\<close> of xiao_usb.py and
  \<^verbatim>\<open>parse_line\<close> of Test_BLE_Sense.py, give none on \<^verbatim>\<open>1,2\<close> (wrong arity) and on
  \<^verbatim>\<open>1,x,3\<close> (a field that is no number), and the record (1.0, 2.0, 3.0) on \<^verbatim>\<open>1,2,3\<close>.
  On every line they return, without raising: none, or a record of three numbers.
\<close>

theorem decoder_three_fields:
  "try_parse_usb ''1,2'' = Inr None
   \<and> try_parse_usb ''1,x,3'' = Inr None
   \<and> try_parse_usb ''1,2,3'' = Inr (Some [Finite 1, Finite 2, Finite 3])
   \<and> parse_line_ble ''1,2'' = Inr None
   \<and> parse_line_ble ''1,x,3'' = Inr None
   \<and> parse_line_ble ''1,2,3'' = Inr (Some (Finite 1, Finite 2, Finite 3))
   \<and> (\<forall>line. \<exists>r. try_parse_usb line = Inr r \<and> (r = None \<or> (\<exists>a b c. r = Some [a, b, c])))
   \<and> (\<forall>line. \<exists>r. parse_line_ble line = Inr r)"
proof -
  have 1: "try_parse_usb ''1,2'' = Inr None" by code_simp
  have 2: "try_parse_usb ''1,x,3'' = Inr None" by code_simp
  have 3: "try_parse_usb ''1,2,3'' = Inr (Some [Finite 1, Finite 2, Finite 3])" by code_simp
  have 4: "parse_line_ble ''1,2'' = Inr None" by code_simp
  have 5: "parse_line_ble ''1,x,3'' = Inr None" by code_simp
  have 6: "parse_line_ble ''1,2,3'' = Inr (Some (Finite 1, Finite 2, Finite 3))" by code_simp
  show ?thesis
    by (intro conjI allI 1 2 3 4 5 6 try_parse_usb_total parse_line_ble_total)
qed

text \<open>
  C9 (device error lines), as amended. A frame whose stripped text starts with \<^verbatim>\<open>err\<close>
  gives none, without raising, in \<^verbatim>\<open>parse_csv_line\<close> of xiao_imu_ble_final.py and in
  \<^verbatim>\<open>parse_line\<close> of xiao_imu_stream.py, as does a frame whose stripped text is empty;
  \<^verbatim>\<open>parse_csv_line\<close> gives none for a frame that starts with \<^verbatim>\<open>#\<close> as well. Neither
  decoder raises, whatever the line.
\<close>

theorem err_lines_ignored:
  "(strip line = [] \<or> startswith (strip line) ''#'' \<or> startswith (strip line) ''err''
      \<longrightarrow> parse_csv_line line = Inr None)
   \<and> (strip line = [] \<or> startswith (strip line) ''err'' \<longrightarrow> parse_line_stream line = Inr None)
   \<and> (\<exists>r. parse_csv_line line = Inr r)
   \<and> (\<exists>r. parse_line_stream line = Inr r)"
proof -
  have a: "strip line = [] \<or> startswith (strip line) ''#'' \<or> startswith (strip line) ''err''
      \<longrightarrow> parse_csv_line line = Inr None"
    by (simp add: parse_csv_line_def Let_def)
  have b: "strip line = [] \<or> startswith (strip line) ''err'' \<longrightarrow> parse_line_stream line = Inr None"
    by (simp add: parse_line_stream_def Let_def)
  show ?thesis by (intro conjI a b parse_csv_line_total parse_line_stream_total)
qed

theorem err_lines_ignored_witness:
  "startswith (strip ''  err ax:1 ay:2 az:3 gx:4 gy:5 gz:6 '') ''err''
   \<and> parse_csv_line ''  err ax:1 ay:2 az:3 gx:4 gy:5 gz:6 '' = Inr None
   \<and> parse_line_stream ''  err ax:1 ay:2 az:3 gx:4 gy:5 gz:6 '' = Inr None
   \<and> parse_csv_line ''ax:1 ay:2 az:3 gx:4 gy:5 gz:6''
       = Inr (Some (Finite 0, Finite 1, Finite 2, Finite 3, Finite 4, Finite 5, Finite 6))"
proof -
  have s: "startswith (strip ''  err ax:1 ay:2 az:3 gx:4 gy:5 gz:6 '') ''err''"
    by code_simp
  have p: "parse_csv_line ''ax:1 ay:2 az:3 gx:4 gy:5 gz:6''
       = Inr (Some (Finite 0, Finite 1, Finite 2, Finite 3, Finite 4, Finite 5, Finite 6))"
    by code_simp
  from mp [OF conjunct1 [OF err_lines_ignored [of "''  err ax:1 ay:2 az:3 gx:4 gy:5 gz:6 ''"]]
      disjI2 [OF disjI2 [OF s]]]
  have 1: "parse_csv_line ''  err ax:1 ay:2 az:3 gx:4 gy:5 gz:6 '' = Inr None" .
  from mp [OF conjunct1 [OF conjunct2 [OF err_lines_ignored [of "''  err ax:1 ay:2 az:3 gx:4 gy:5 gz:6 ''"]]]
      disjI2 [OF s]]
  have 2: "parse_line_stream ''  err ax:1 ay:2 az:3 gx:4 gy:5 gz:6 '' = Inr None" .
  show ?thesis
    by (intro conjI s p 1 2)
qed

text \<open>
  The claim as stated fails for \<^verbatim>\<open>parse_line\<close> of xiao_imu_stream.py, which has no guard
  for \<^verbatim>\<open>#\<close>: a frame that starts with \<^verbatim>\<open>#\<close> and carries the six keys is decoded to a
  record.
\<close>

theorem hash_line_counterexample:
  "startswith (strip ''# ax:1 ay:2 az:3 gx:4 gy:5 gz:6'') ''#''
   \<and> parse_line_stream ''# ax:1 ay:2 az:3 gx:4 gy:5 gz:6''
       = Inr (Some (Finite 0, Finite 1, Finite 2, Finite 3, Finite 4, Finite 5, Finite 6))
   \<and> parse_line_stream ''# ax:1 ay:2 az:3 gx:4 gy:5 gz:6'' \<noteq> Inr None"
  by code_simp

section \<open>Properties of the relay channel\<close>

lemma deliver_total:
  "\<exists>q'. deliver q p = Inr q' \<and> maxsize q' = maxsize q \<and> (\<exists>ys. entries q' = entries q @ ys)"
  by (cases p) (auto simp: deliver_def put_nowait_def)

lemma deliver_full:
  "0 < maxsize q \<Longrightarrow> maxsize q \<le> qsize q \<Longrightarrow> deliver q (Some x) = Inr q"
  by (simp add: deliver_def put_nowait_def)

lemma deliver_room:
  "\<not> (0 < maxsize q \<and> maxsize q \<le> qsize q) \<Longrightarrow>
   deliver q (Some x) = Inr (Queue (maxsize q) (entries q @ [x]))"
  by (auto simp: deliver_def put_nowait_def)

lemma deliver_all_total:
  "\<exists>q'. deliver_all q ps = Inr q' \<and> maxsize q' = maxsize q \<and> (\<exists>ys. entries q' = entries q @ ys)"
proof (induction ps arbitrary: q)
  case Nil
  show ?case by simp
next
  case (Cons p ps)
  from deliver_total [of q p] obtain q1 ys1 where
    1: "deliver q p = Inr q1" "maxsize q1 = maxsize q" "entries q1 = entries q @ ys1" by blast
  from Cons.IH [of q1] obtain q2 ys2 where
    2: "deliver_all q1 ps = Inr q2" "maxsize q2 = maxsize q1" "entries q2 = entries q1 @ ys2" by blast
  from 1 2 show ?case by simp
qed

lemma deliver_all_take:
  "0 < maxsize q \<Longrightarrow> qsize q \<le> maxsize q \<Longrightarrow>
   deliver_all q (map Some xs) = Inr (Queue (maxsize q) (take (nat (maxsize q)) (entries q @ xs)))"
proof (induction xs arbitrary: q)
  case Nil
  then show ?case by (cases q) (simp add: qsize_def)
next
  case (Cons x xs)
  show ?case
  proof (cases "maxsize q \<le> qsize q")
    case True
    with Cons.prems have d: "deliver q (Some x) = Inr q" by (simp add: deliver_full)
    from True Cons.prems have l: "nat (maxsize q) = length (entries q)" by (simp add: qsize_def)
    from Cons.IH [OF Cons.prems] d l show ?thesis by simp
  next
    case False
    then have d: "deliver q (Some x) = Inr (Queue (maxsize q) (entries q @ [x]))"
      by (simp add: deliver_room)
    have p: "0 < maxsize (Queue (maxsize q) (entries q @ [x]))"
      "qsize (Queue (maxsize q) (entries q @ [x])) \<le> maxsize (Queue (maxsize q) (entries q @ [x]))"
      using Cons.prems False by (simp_all add: qsize_def)
    from Cons.IH [OF p] d show ?thesis by simp
  qed
qed

section \<open>Properties of ring and accumulator\<close>

lemma deque_append_maxlen [simp]: "maxlen (deque_append d x) = maxlen d"
  by (simp add: deque_append_def Let_def)

lemma deque_append_bound:
  "length (items d) \<le> maxlen d \<Longrightarrow> length (items (deque_append d x)) \<le> maxlen d"
  by (simp add: deque_append_def Let_def)

lemma tl_drop_snoc:
  "n \<le> length ys \<Longrightarrow> tl (drop (length ys - n) ys @ [x]) = drop (Suc (length ys) - n) (ys @ [x])"
proof (cases n)
  case 0
  then show ?thesis by simp
next
  case (Suc m)
  assume "n \<le> length ys"
  with Suc have l: "length ys - n < length ys" by simp
  then have ne: "drop (length ys - n) ys \<noteq> []" by simp
  have s: "Suc (length ys) - n = Suc (length ys - n)"
    using \<open>n \<le> length ys\<close> by simp
  from ne have "tl (drop (length ys - n) ys @ [x]) = tl (drop (length ys - n) ys) @ [x]"
    by simp
  also have "\<dots> = drop (Suc (length ys - n)) ys @ [x]"
    by (simp add: drop_Suc tl_drop)
  also have "\<dots> = drop (Suc (length ys) - n) (ys @ [x])"
    using l by (simp add: s)
  finally show ?thesis .
qed

lemma deque_append_last:
  "items d = drop (length ys - maxlen d) ys \<Longrightarrow>
   items (deque_append d x) = drop (length (ys @ [x]) - maxlen d) (ys @ [x])"
proof (cases "length ys < maxlen d")
  case True
  assume "items d = drop (length ys - maxlen d) ys"
  with True show ?thesis by (simp add: deque_append_def Let_def)
next
  case False
  assume a: "items d = drop (length ys - maxlen d) ys"
  from False have l: "length (items d) = maxlen d" using a by simp
  from False have "maxlen d \<le> length ys" by simp
  from tl_drop_snoc [OF this, of x] a l show ?thesis
    by (simp add: deque_append_def Let_def)
qed

lemma foldl_deque_append:
  "items d = drop (length ys - maxlen d) ys \<Longrightarrow>
   foldl deque_append d xs = Deque (maxlen d) (drop (length (ys @ xs) - maxlen d) (ys @ xs))"
proof (induction xs arbitrary: d ys)
  case Nil
  then show ?case by (cases d) simp
next
  case (Cons x xs)
  from Cons.IH [of "deque_append d x" "ys @ [x]"] deque_append_last [OF Cons.prems, of x]
  show ?case by simp
qed

lemma foldl_deque_maxlen [simp]: "maxlen (foldl deque_append d xs) = maxlen d"
  by (induction xs arbitrary: d) auto

section \<open>Properties of the pump\<close>

lemma stamped_length [simp]: "length (stamped clk i s rows) = length rows"
  by (induction rows arbitrary: i) auto

lemma stamped_values: "map snd (stamped clk i s rows) = map snd rows"
  by (induction rows arbitrary: i) auto

lemma pump_row_eq:
  "pump_row now (t, r) ss =
     ss\<lparr>data := deque_append (data ss) (t_rel (t0 ss) now t, r),
        all_rows := all_rows ss @ [(t_rel (t0 ss) now t, r)]\<rparr>"
  by (cases r) (auto simp: pump_row_def Let_def)

lemma drain_eq:
  "entries (q_parsed ss) = rows \<Longrightarrow>
   drain clk i ss =
     (ss\<lparr>q_parsed := Queue (maxsize (q_parsed ss)) [],
         data := foldl deque_append (data ss) (stamped clk i (t0 ss) rows),
         all_rows := all_rows ss @ stamped clk i (t0 ss) rows\<rparr>,
      length rows)"
proof (induction rows arbitrary: ss i)
  case Nil
  then have "q_parsed ss = Queue (maxsize (q_parsed ss)) []" by (cases "q_parsed ss") simp
  then have "ss\<lparr>q_parsed := Queue (maxsize (q_parsed ss)) []\<rparr> = ss" by simp
  with Nil show ?case by (subst drain.simps) (simp add: get_nowait_def)
next
  case (Cons row rows)
  obtain t r where row: "row = (t, r)" by (cases row)
  let ?q = "Queue (maxsize (q_parsed ss)) rows"
  let ?ss = "pump_row (clk i) row (ss\<lparr>q_parsed := ?q\<rparr>)"
  have g: "get_nowait (q_parsed ss) = Some (row, ?q)"
    using Cons.prems by (simp add: get_nowait_def)
  have e: "entries (q_parsed ?ss) = rows" by (simp add: row pump_row_eq)
  from Cons.IH [OF e, of "Suc i"] g
  show ?case by (subst drain.simps) (simp add: row pump_row_eq)
qed

lemma reader_relays_eq:
  "\<exists>q. reader_relays rows ss = ss\<lparr>q_parsed := q\<rparr>"
  using deliver_all_total [of "q_parsed ss" "map Some rows"]
  by (auto simp: reader_relays_def)

lemma reader_relays_fields [simp]:
  "all_rows (reader_relays rows ss) = all_rows ss"
  "data (reader_relays rows ss) = data ss"
  "t0 (reader_relays rows ss) = t0 ss"
  "download_bytes (reader_relays rows ss) = download_bytes ss"
  "reader_thread (reader_relays rows ss) = reader_thread ss"
  using reader_relays_eq [of rows ss] by auto

lemma reader_relays_Nil [simp]: "reader_relays [] ss = ss"
  by (simp add: reader_relays_def)

lemma drain_fields:
  "\<exists>ys. all_rows (fst (drain clk i ss)) = all_rows ss @ ys"
  "t0 (fst (drain clk i ss)) = t0 ss"
  "reader_thread (fst (drain clk i ss)) = reader_thread ss"
  "download_bytes (fst (drain clk i ss)) = download_bytes ss"
  "maxlen (data (fst (drain clk i ss))) = maxlen (data ss)"
  using drain_eq [OF refl, of clk i ss]
  by (simp_all add: foldl_deque_maxlen)

lemma drain_empty:
  "entries (q_parsed ss) = [] \<Longrightarrow> drain clk i ss = (ss, 0)"
proof -
  assume e: "entries (q_parsed ss) = []"
  then have "q_parsed ss = Queue (maxsize (q_parsed ss)) []" by (cases "q_parsed ss") simp
  then have "ss\<lparr>q_parsed := Queue (maxsize (q_parsed ss)) []\<rparr> = ss" by simp
  with drain_eq [OF e, of clk i] show ?thesis by simp
qed

lemma drain_leaves_empty: "entries (q_parsed (fst (drain clk i ss))) = []"
  using drain_eq [OF refl, of clk i ss] by simp

lemma pump_rounds_no_arrivals:
  "pump_rounds clk i (Suc n) [] ss = drain clk i ss"
proof (cases n)
  case 0
  show ?thesis
    by (cases "drain clk i ss") (simp add: 0)
next
  case (Suc m)
  obtain ss1 added where d: "drain clk i ss = (ss1, added)" by (cases "drain clk i ss")
  have "entries (q_parsed ss1) = []" using drain_leaves_empty [of clk i ss] d by simp
  then have e: "drain clk (i + added) ss1 = (ss1, 0)" by (rule drain_empty)
  show ?thesis by (simp add: Suc d e)
qed

lemma pump_no_arrivals:
  "pump_queue_into_buffers clk [] repeat ss = drain clk 0 ss"
proof -
  have "\<exists>n. nat (max 1 repeat) = Suc n" by (cases "nat (max 1 repeat)") auto
  then obtain n where "nat (max 1 repeat) = Suc n" ..
  then show ?thesis
    unfolding pump_queue_into_buffers_def by (simp only: pump_rounds_no_arrivals)
qed

lemma pump_rounds_fields:
  "(\<exists>ys. all_rows (fst (pump_rounds clk i n arr ss)) = all_rows ss @ ys)
   \<and> t0 (fst (pump_rounds clk i n arr ss)) = t0 ss
   \<and> reader_thread (fst (pump_rounds clk i n arr ss)) = reader_thread ss
   \<and> download_bytes (fst (pump_rounds clk i n arr ss)) = download_bytes ss
   \<and> maxlen (data (fst (pump_rounds clk i n arr ss))) = maxlen (data ss)"
proof (induction n arbitrary: i arr ss)
  case 0
  show ?case by simp
next
  case (Suc n)
  obtain ss1 added where d: "drain clk i ss = (ss1, added)" by (cases "drain clk i ss")
  from drain_fields [of clk i ss] d obtain ys1 where
    1: "all_rows ss1 = all_rows ss @ ys1" "t0 ss1 = t0 ss" "reader_thread ss1 = reader_thread ss"
       "download_bytes ss1 = download_bytes ss" "maxlen (data ss1) = maxlen (data ss)"
    by auto
  show ?case
  proof (cases "added = 0")
    case True
    with d 1 show ?thesis by simp
  next
    case False
    let ?ss2 = "reader_relays (case arr of [] \<Rightarrow> [] | a # _ \<Rightarrow> a) ss1"
    obtain ss3 total where p: "pump_rounds clk (i + added) n (tl arr) ?ss2 = (ss3, total)"
      by (cases "pump_rounds clk (i + added) n (tl arr) ?ss2")
    from Suc.IH [of "i + added" "tl arr" ?ss2] p obtain ys2 where
      2: "all_rows ss3 = all_rows ?ss2 @ ys2" "t0 ss3 = t0 ?ss2"
         "reader_thread ss3 = reader_thread ?ss2" "download_bytes ss3 = download_bytes ?ss2"
         "maxlen (data ss3) = maxlen (data ?ss2)"
      by auto
    from False d p 1 2 show ?thesis by simp
  qed
qed

lemma pump_fields:
  "(\<exists>ys. all_rows (fst (pump_queue_into_buffers clk arr repeat ss)) = all_rows ss @ ys)
   \<and> t0 (fst (pump_queue_into_buffers clk arr repeat ss)) = t0 ss
   \<and> reader_thread (fst (pump_queue_into_buffers clk arr repeat ss)) = reader_thread ss
   \<and> download_bytes (fst (pump_queue_into_buffers clk arr repeat ss)) = download_bytes ss
   \<and> maxlen (data (fst (pump_queue_into_buffers clk arr repeat ss))) = maxlen (data ss)"
  unfolding pump_queue_into_buffers_def by (rule pump_rounds_fields)

lemma stamped_unset: "\<not> t0_set s \<Longrightarrow> stamped clk i s rows = rows"
  by (induction rows arbitrary: i) (auto simp: t_rel_def truthy_def)

lemma stamped_set:
  "t0_set s \<Longrightarrow>
   map fst (stamped clk i s rows) = map (\<lambda>j. Finite (clk j - the s)) [i..<i + length rows]"
proof (induction rows arbitrary: i)
  case Nil
  show ?case by simp
next
  case (Cons row rows)
  obtain t r where row: "row = (t, r)" by (cases row)
  have "i < i + length (row # rows)" by simp
  from upt_conv_Cons [OF this]
  have u: "[i..<i + length (row # rows)] = i # [Suc i..<Suc i + length rows]" by simp
  from Cons.IH [OF Cons.prems, of "Suc i"] Cons.prems show ?case
    unfolding u by (simp add: row t_rel_def)
qed

lemma pump_queues_log:
  "\<exists>ys. log_rows (pump_queues ss) = log_rows ss @ ys"
proof (induction ss rule: pump_queues.induct)
  case (1 ss)
  show ?case
  proof (cases "get_nowait (live_q_parsed ss)")
    case None
    then show ?thesis by (subst pump_queues.simps) simp
  next
    case (Some a)
    obtain row q' where a: "a = (row, q')" by (cases a)
    from 1 [OF Some [unfolded a] refl] obtain ys where
      "log_rows (pump_queues (ss\<lparr>live_q_parsed := q', parsed := deque_append (parsed ss) row,
                log_rows := (if logging ss then log_rows ss @ [row] else log_rows ss)\<rparr>))
       = (if logging ss then log_rows ss @ [row] else log_rows ss) @ ys"
      by auto
    then show ?thesis
      by (subst pump_queues.simps) (auto simp: Some a)
  qed
qed

lemma foldl_deque_last:
  "length (items d) \<le> maxlen d \<and> length xs = maxlen d + k \<Longrightarrow>
   foldl deque_append d xs = Deque (maxlen d) (drop k xs)"
proof -
  assume h: "length (items d) \<le> maxlen d \<and> length xs = maxlen d + k"
  then have "items d = drop (length (items d) - maxlen d) (items d)" by simp
  from foldl_deque_append [OF this, of xs] h show ?thesis by simp
qed

lemma drain_ring_last:
  "items (data ss) = drop (length (all_rows ss) - maxlen (data ss)) (all_rows ss) \<Longrightarrow>
   items (data (fst (drain clk i ss)))
     = drop (length (all_rows (fst (drain clk i ss))) - maxlen (data ss))
         (all_rows (fst (drain clk i ss)))"
  using foldl_deque_append [of "data ss" "all_rows ss" "stamped clk i (t0 ss) (entries (q_parsed ss))"]
  by (simp add: drain_eq [OF refl])

lemma pump_rounds_ring_last:
  "items (data ss) = drop (length (all_rows ss) - maxlen (data ss)) (all_rows ss) \<Longrightarrow>
   items (data (fst (pump_rounds clk i n arr ss)))
     = drop (length (all_rows (fst (pump_rounds clk i n arr ss))) - maxlen (data ss))
         (all_rows (fst (pump_rounds clk i n arr ss)))"
proof (induction n arbitrary: i arr ss)
  case 0
  then show ?case by simp
next
  case (Suc n)
  obtain ss1 added where d: "drain clk i ss = (ss1, added)" by (cases "drain clk i ss")
  from drain_ring_last [OF Suc.prems, of clk i] drain_fields(5) [of clk i ss] d
  have 1: "items (data ss1) = drop (length (all_rows ss1) - maxlen (data ss1)) (all_rows ss1)"
    and m: "maxlen (data ss1) = maxlen (data ss)"
    by simp_all
  show ?case
  proof (cases "added = 0")
    case True
    with d 1 m show ?thesis by simp
  next
    case False
    let ?ss2 = "reader_relays (case arr of [] \<Rightarrow> [] | a # _ \<Rightarrow> a) ss1"
    have 2: "items (data ?ss2) = drop (length (all_rows ?ss2) - maxlen (data ?ss2)) (all_rows ?ss2)"
      using 1 by simp
    obtain ss3 total where p: "pump_rounds clk (i + added) n (tl arr) ?ss2 = (ss3, total)"
      by (cases "pump_rounds clk (i + added) n (tl arr) ?ss2")
    from Suc.IH [OF 2, of "i + added" "tl arr"] p m
    have "items (data ss3) = drop (length (all_rows ss3) - maxlen (data ss)) (all_rows ss3)"
      by simp
    with False d p show ?thesis by simp
  qed
qed

lemma pump_ring_last:
  "items (data ss) = drop (length (all_rows ss) - maxlen (data ss)) (all_rows ss) \<Longrightarrow>
   items (data (fst (pump_queue_into_buffers clk arr repeat ss)))
     = drop (length (all_rows (fst (pump_queue_into_buffers clk arr repeat ss))) - maxlen (data ss))
         (all_rows (fst (pump_queue_into_buffers clk arr repeat ss)))"
  unfolding pump_queue_into_buffers_def by (rule pump_rounds_ring_last)

section \<open>Claims about channel, ring and accumulator\<close>

text \<open>
  C6 (push on a full channel). On a full channel the delivery of a record returns without
  raising and leaves the channel as it was: the new record is the one dropped. Delivery
  never raises, keeps the bound, and keeps the entries already there, in their order, at
  the front. Records pushed one after the other without draining fill the channel up to
  its bound, in the order they were pushed, and the excess, the newest ones, is dropped.
  The consumer takes the oldest entry first.
\<close>

theorem channel_backpressure:
  "(0 < maxsize q \<and> maxsize q \<le> qsize q \<longrightarrow>
      put_nowait q x = Inl QueueFull \<and> deliver q (Some x) = Inr q)
   \<and> (\<exists>q'. deliver q p = Inr q' \<and> maxsize q' = maxsize q \<and> (\<exists>ys. entries q' = entries q @ ys))
   \<and> (\<exists>q'. deliver_all q ps = Inr q' \<and> maxsize q' = maxsize q \<and> (\<exists>ys. entries q' = entries q @ ys))
   \<and> (0 < maxsize q \<and> qsize q \<le> maxsize q \<longrightarrow>
        deliver_all q (map Some xs)
          = Inr (Queue (maxsize q) (take (nat (maxsize q)) (entries q @ xs))))
   \<and> (entries q = y # ys \<longrightarrow> get_nowait q = Some (y, Queue (maxsize q) ys))"
proof -
  have a: "0 < maxsize q \<and> maxsize q \<le> qsize q \<longrightarrow>
      put_nowait q x = Inl QueueFull \<and> deliver q (Some x) = Inr q"
    by (simp add: deliver_full put_nowait_def)
  have d: "0 < maxsize q \<and> qsize q \<le> maxsize q \<longrightarrow>
        deliver_all q (map Some xs)
          = Inr (Queue (maxsize q) (take (nat (maxsize q)) (entries q @ xs)))"
    using deliver_all_take [of q xs] by simp
  have e: "entries q = y # ys \<longrightarrow> get_nowait q = Some (y, Queue (maxsize q) ys)"
    by (simp add: get_nowait_def)
  show ?thesis
    by (intro conjI a deliver_total deliver_all_total d e)
qed

theorem channel_backpressure_witness:
  "0 < maxsize (Queue 2 [sample 0 1, sample 0 2])
   \<and> maxsize (Queue 2 [sample 0 1, sample 0 2]) \<le> qsize (Queue 2 [sample 0 1, sample 0 2])
   \<and> deliver (Queue 2 [sample 0 1, sample 0 2]) (Some (sample 0 3))
       = Inr (Queue 2 [sample 0 1, sample 0 2])
   \<and> deliver_all (Queue 2 [sample 0 1]) (map Some [sample 0 2, sample 0 3, sample 0 4])
       = Inr (Queue 2 [sample 0 1, sample 0 2])
   \<and> get_nowait (Queue 2 [sample 0 1, sample 0 2]) = Some (sample 0 1, Queue 2 [sample 0 2])"
proof -
  have f: "0 < maxsize (Queue 2 [sample 0 1, sample 0 2])"
    "maxsize (Queue 2 [sample 0 1, sample 0 2]) \<le> qsize (Queue 2 [sample 0 1, sample 0 2])"
    by (simp_all add: qsize_def)
  have r: "0 < maxsize (Queue 2 [sample 0 1])"
    "qsize (Queue 2 [sample 0 1]) \<le> maxsize (Queue 2 [sample 0 1])"
    by (simp_all add: qsize_def)
  from channel_backpressure [of "Queue 2 [sample 0 1, sample 0 2]" "sample 0 3" None "[]"
      "[]" "sample 0 1" "[sample 0 2]"] f
  have 1: "deliver (Queue 2 [sample 0 1, sample 0 2]) (Some (sample 0 3))
       = Inr (Queue 2 [sample 0 1, sample 0 2])"
    and 3: "get_nowait (Queue 2 [sample 0 1, sample 0 2]) = Some (sample 0 1, Queue 2 [sample 0 2])"
    by simp_all
  from channel_backpressure [of "Queue 2 [sample 0 1]" "sample 0 3" None "[]"
      "[sample 0 2, sample 0 3, sample 0 4]" "sample 0 1" "[]"] r
  have 2: "deliver_all (Queue 2 [sample 0 1]) (map Some [sample 0 2, sample 0 3, sample 0 4])
       = Inr (Queue 2 [sample 0 1, sample 0 2])"
    by simp
  show ?thesis by (intro conjI f 1 2 3)
qed

text \<open>
  C5 (ring eviction). A ring of capacity \<open>N\<close> to which \<open>N + k\<close> records are appended holds
  afterwards exactly the last \<open>N\<close> of them, oldest first, whatever it held before. When the
  pump takes \<open>N + k\<close> records from the channel, the accumulator has all \<open>N + k\<close> records
  added at its end, in the order of the channel and with their sensor values, and the ring
  holds the last \<open>N\<close> of them. If the ring holds the last \<open>N\<close> records of the accumulator
  before a pump, as it does after Start, it does so after the pump, whatever arrives in
  between. An append never makes a ring longer than its capacity. (A
  \<^verbatim>\<open>deque(maxlen=N)\<close> never holds more than \<open>N\<close> items: that is what the hypothesis on
  the length of the ring says.)
\<close>

theorem ring_eviction:
  "(length (items d) \<le> maxlen d \<and> length xs = maxlen d + k \<longrightarrow>
      foldl deque_append d xs = Deque (maxlen d) (drop k xs))
   \<and> (length (items (data ss)) \<le> maxlen (data ss)
        \<and> length (entries (q_parsed ss)) = maxlen (data ss) + k \<longrightarrow>
       all_rows (fst (pump_queue_into_buffers clk [] repeat ss))
         = all_rows ss @ stamped clk 0 (t0 ss) (entries (q_parsed ss))
       \<and> length (all_rows (fst (pump_queue_into_buffers clk [] repeat ss)))
           = length (all_rows ss) + (maxlen (data ss) + k)
       \<and> map snd (drop (length (all_rows ss))
                     (all_rows (fst (pump_queue_into_buffers clk [] repeat ss))))
           = map snd (entries (q_parsed ss))
       \<and> items (data (fst (pump_queue_into_buffers clk [] repeat ss)))
           = drop (length (all_rows ss) + k)
               (all_rows (fst (pump_queue_into_buffers clk [] repeat ss)))
       \<and> length (items (data (fst (pump_queue_into_buffers clk [] repeat ss)))) = maxlen (data ss)
       \<and> snd (pump_queue_into_buffers clk [] repeat ss) = maxlen (data ss) + k)
   \<and> (items (data ss) = drop (length (all_rows ss) - maxlen (data ss)) (all_rows ss) \<longrightarrow>
        items (data (fst (pump_queue_into_buffers clk arr repeat ss)))
          = drop (length (all_rows (fst (pump_queue_into_buffers clk arr repeat ss)))
                    - maxlen (data ss))
              (all_rows (fst (pump_queue_into_buffers clk arr repeat ss))))
   \<and> (length (items d) \<le> maxlen d \<longrightarrow>
        length (items (deque_append d x)) \<le> maxlen (deque_append d x))"
proof -
  have a: "length (items d) \<le> maxlen d \<and> length xs = maxlen d + k \<longrightarrow>
      foldl deque_append d xs = Deque (maxlen d) (drop k xs)" for d :: "'b deque" and xs
    using foldl_deque_last [of d xs k] by blast
  have b: "length (items (data ss)) \<le> maxlen (data ss)
        \<and> length (entries (q_parsed ss)) = maxlen (data ss) + k \<longrightarrow>
       all_rows (fst (pump_queue_into_buffers clk [] repeat ss))
         = all_rows ss @ stamped clk 0 (t0 ss) (entries (q_parsed ss))
       \<and> length (all_rows (fst (pump_queue_into_buffers clk [] repeat ss)))
           = length (all_rows ss) + (maxlen (data ss) + k)
       \<and> map snd (drop (length (all_rows ss))
                     (all_rows (fst (pump_queue_into_buffers clk [] repeat ss))))
           = map snd (entries (q_parsed ss))
       \<and> items (data (fst (pump_queue_into_buffers clk [] repeat ss)))
           = drop (length (all_rows ss) + k)
               (all_rows (fst (pump_queue_into_buffers clk [] repeat ss)))
       \<and> length (items (data (fst (pump_queue_into_buffers clk [] repeat ss)))) = maxlen (data ss)
       \<and> snd (pump_queue_into_buffers clk [] repeat ss) = maxlen (data ss) + k"
  proof
    assume h: "length (items (data ss)) \<le> maxlen (data ss)
        \<and> length (entries (q_parsed ss)) = maxlen (data ss) + k"
    let ?st = "stamped clk 0 (t0 ss) (entries (q_parsed ss))"
    have l: "length ?st = maxlen (data ss) + k" using h by simp
    from foldl_deque_last [of "data ss" ?st k] h l
    have r: "foldl deque_append (data ss) ?st = Deque (maxlen (data ss)) (drop k ?st)"
      by simp
    from h l r stamped_values [of clk 0 "t0 ss" "entries (q_parsed ss)"]
    show "all_rows (fst (pump_queue_into_buffers clk [] repeat ss))
         = all_rows ss @ stamped clk 0 (t0 ss) (entries (q_parsed ss))
       \<and> length (all_rows (fst (pump_queue_into_buffers clk [] repeat ss)))
           = length (all_rows ss) + (maxlen (data ss) + k)
       \<and> map snd (drop (length (all_rows ss))
                     (all_rows (fst (pump_queue_into_buffers clk [] repeat ss))))
           = map snd (entries (q_parsed ss))
       \<and> items (data (fst (pump_queue_into_buffers clk [] repeat ss)))
           = drop (length (all_rows ss) + k)
               (all_rows (fst (pump_queue_into_buffers clk [] repeat ss)))
       \<and> length (items (data (fst (pump_queue_into_buffers clk [] repeat ss)))) = maxlen (data ss)
       \<and> snd (pump_queue_into_buffers clk [] repeat ss) = maxlen (data ss) + k"
      by (simp add: pump_no_arrivals drain_eq [OF refl])
  qed
  have c: "items (data ss) = drop (length (all_rows ss) - maxlen (data ss)) (all_rows ss) \<longrightarrow>
        items (data (fst (pump_queue_into_buffers clk arr repeat ss)))
          = drop (length (all_rows (fst (pump_queue_into_buffers clk arr repeat ss)))
                    - maxlen (data ss))
              (all_rows (fst (pump_queue_into_buffers clk arr repeat ss)))"
    using pump_ring_last [of ss clk arr repeat] pump_fields [of clk arr repeat ss] by simp
  have e: "length (items d) \<le> maxlen d \<longrightarrow>
        length (items (deque_append d x)) \<le> maxlen (deque_append d x)" for d :: "'b deque" and x
    by (simp add: deque_append_bound)
  show ?thesis by (intro conjI a b c e)
qed

theorem ring_eviction_witness:
  "length (items (Deque 2 [sample 0 9])) \<le> maxlen (Deque 2 [sample 0 9])
   \<and> length [sample 0 1, sample 0 2, sample 0 3] = maxlen (Deque 2 [sample 0 9]) + 1
   \<and> foldl deque_append (Deque 2 [sample 0 9]) [sample 0 1, sample 0 2, sample 0 3]
       = Deque 2 [sample 0 2, sample 0 3]
   \<and> all_rows (fst (pump_queue_into_buffers (\<lambda>i. 0) [] 3
        (session_default\<lparr>data := Deque 2 [],
           q_parsed := Queue 20000 [sample 0 1, sample 0 2, sample 0 3]\<rparr>)))
       = [sample 0 1, sample 0 2, sample 0 3]
   \<and> items (data (fst (pump_queue_into_buffers (\<lambda>i. 0) [] 3
        (session_default\<lparr>data := Deque 2 [],
           q_parsed := Queue 20000 [sample 0 1, sample 0 2, sample 0 3]\<rparr>))))
       = [sample 0 2, sample 0 3]"
proof -
  let ?ss = "session_default\<lparr>data := Deque 2 [],
           q_parsed := Queue 20000 [sample 0 1, sample 0 2, sample 0 3]\<rparr>"
  have h: "length (items (data ?ss)) \<le> maxlen (data ?ss)
      \<and> length (entries (q_parsed ?ss)) = maxlen (data ?ss) + 1"
    by simp
  have s: "stamped (\<lambda>i. 0) 0 (t0 ?ss) (entries (q_parsed ?ss)) = [sample 0 1, sample 0 2, sample 0 3]"
    by (simp add: session_default_def stamped_unset t0_set_def)
  have e: "all_rows ?ss = []" by (simp add: session_default_def)
  have l: "length (items (Deque 2 [sample 0 9])) \<le> maxlen (Deque 2 [sample 0 9])"
    "length [sample 0 1, sample 0 2, sample 0 3] = maxlen (Deque 2 [sample 0 9]) + 1"
    by simp_all
  from mp [OF conjunct1 [OF ring_eviction
      [where d = "Deque 2 [sample 0 9]" and xs = "[sample 0 1, sample 0 2, sample 0 3]" and k = 1]]
      conjI [OF l]]
  have 1: "foldl deque_append (Deque 2 [sample 0 9]) [sample 0 1, sample 0 2, sample 0 3]
       = Deque 2 [sample 0 2, sample 0 3]"
    by simp
  note b = mp [OF conjunct1 [OF conjunct2 [OF ring_eviction
      [where k = 1 and ss = ?ss and clk = "\<lambda>i. 0" and repeat = 3]]] h]
  from conjunct1 [OF b] s e
  have 4: "all_rows (fst (pump_queue_into_buffers (\<lambda>i. 0) [] 3 ?ss))
      = [sample 0 1, sample 0 2, sample 0 3]" by simp
  from conjunct1 [OF conjunct2 [OF conjunct2 [OF conjunct2 [OF b]]]] 4 e
  have 5: "items (data (fst (pump_queue_into_buffers (\<lambda>i. 0) [] 3 ?ss)))
      = [sample 0 2, sample 0 3]" by simp
  show ?thesis by (intro conjI l 1 4 5)
qed

text \<open>
  C2 (time field), as amended. Once a session start time is set, every record the pump
  appends to ring and accumulator carries the wall-clock offset since that start, whatever
  time the device supplied, zero or not. Only while no start time is set is the device's
  time kept, a zero included. The pump of xiao_imu_stream.py never reads the device's
  time: it writes the offset, or zero while no start time is set. Ring and accumulator
  receive the same record, and the six sensor values are never changed.
\<close>

theorem timestamp_policy:
  "(t0_set (t0 ss) \<longrightarrow>
      pump_row now (t, r) ss
        = ss\<lparr>data := deque_append (data ss) (Finite (now - the (t0 ss)), r),
             all_rows := all_rows ss @ [(Finite (now - the (t0 ss)), r)]\<rparr>
      \<and> map fst (drop (length (all_rows ss))
                    (all_rows (fst (pump_queue_into_buffers clk [] repeat ss))))
          = map (\<lambda>j. Finite (clk j - the (t0 ss))) [0..<length (entries (q_parsed ss))])
   \<and> (\<not> t0_set (t0 ss) \<longrightarrow>
      pump_row now (t, r) ss
        = ss\<lparr>data := deque_append (data ss) (t, r), all_rows := all_rows ss @ [(t, r)]\<rparr>
      \<and> all_rows (fst (pump_queue_into_buffers clk [] repeat ss))
          = all_rows ss @ entries (q_parsed ss))
   \<and> pump_row_stream now (t, r) ss
        = ss\<lparr>data := deque_append (data ss)
                      (if t0_set (t0 ss) then Finite (now - the (t0 ss)) else Finite 0, r),
             all_rows := all_rows ss
                      @ [(if t0_set (t0 ss) then Finite (now - the (t0 ss)) else Finite 0, r)]\<rparr>
   \<and> map snd (drop (length (all_rows ss))
                 (all_rows (fst (pump_queue_into_buffers clk [] repeat ss))))
       = map snd (entries (q_parsed ss))"
proof -
  have p: "all_rows (fst (pump_queue_into_buffers clk [] repeat ss))
      = all_rows ss @ stamped clk 0 (t0 ss) (entries (q_parsed ss))"
    by (simp add: pump_no_arrivals drain_eq [OF refl])
  have a: "t0_set (t0 ss) \<longrightarrow>
      pump_row now (t, r) ss
        = ss\<lparr>data := deque_append (data ss) (Finite (now - the (t0 ss)), r),
             all_rows := all_rows ss @ [(Finite (now - the (t0 ss)), r)]\<rparr>
      \<and> map fst (drop (length (all_rows ss))
                    (all_rows (fst (pump_queue_into_buffers clk [] repeat ss))))
          = map (\<lambda>j. Finite (clk j - the (t0 ss))) [0..<length (entries (q_parsed ss))]"
    using stamped_set [of "t0 ss" clk 0 "entries (q_parsed ss)"]
    by (simp add: p pump_row_eq t_rel_def)
  have b: "\<not> t0_set (t0 ss) \<longrightarrow>
      pump_row now (t, r) ss
        = ss\<lparr>data := deque_append (data ss) (t, r), all_rows := all_rows ss @ [(t, r)]\<rparr>
      \<and> all_rows (fst (pump_queue_into_buffers clk [] repeat ss))
          = all_rows ss @ entries (q_parsed ss)"
    by (auto simp: p pump_row_eq t_rel_def truthy_def stamped_unset)
  have c: "pump_row_stream now (t, r) ss
        = ss\<lparr>data := deque_append (data ss)
                      (if t0_set (t0 ss) then Finite (now - the (t0 ss)) else Finite 0, r),
             all_rows := all_rows ss
                      @ [(if t0_set (t0 ss) then Finite (now - the (t0 ss)) else Finite 0, r)]\<rparr>"
    by (cases r) (simp add: pump_row_stream_def Let_def)
  have d: "map snd (drop (length (all_rows ss))
                 (all_rows (fst (pump_queue_into_buffers clk [] repeat ss))))
       = map snd (entries (q_parsed ss))"
    by (simp add: p stamped_values)
  show ?thesis by (intro conjI a b c d)
qed

theorem timestamp_policy_witness:
  "t0_set (t0 (session_default\<lparr>t0 := Some 100, q_parsed := Queue 20000 [sample 42 1, sample 0 2]\<rparr>))
   \<and> map fst (all_rows (fst (pump_queue_into_buffers (\<lambda>j. 105 + of_nat j) [] 3
        (session_default\<lparr>t0 := Some 100, q_parsed := Queue 20000 [sample 42 1, sample 0 2]\<rparr>))))
       = [Finite 5, Finite 6]
   \<and> \<not> t0_set (t0 (session_default\<lparr>q_parsed := Queue 20000 [sample 42 1, sample 0 2]\<rparr>))
   \<and> all_rows (fst (pump_queue_into_buffers (\<lambda>j. 105 + of_nat j) [] 3
        (session_default\<lparr>q_parsed := Queue 20000 [sample 42 1, sample 0 2]\<rparr>)))
       = [sample 42 1, sample 0 2]"
proof -
  let ?s1 = "session_default\<lparr>t0 := Some 100, q_parsed := Queue 20000 [sample 42 1, sample 0 2]\<rparr>"
  let ?s2 = "session_default\<lparr>q_parsed := Queue 20000 [sample 42 1, sample 0 2]\<rparr>"
  have h1: "t0_set (t0 ?s1)" by (simp add: t0_set_def)
  have h2: "\<not> t0_set (t0 ?s2)" by (simp add: t0_set_def session_default_def)
  have u: "[0..<2] = [0, Suc 0]" by (simp add: upt_rec)
  from conjunct2 [OF mp [OF conjunct1 [OF timestamp_policy [of ?s1 _ _ _ "\<lambda>j. 105 + of_nat j" 3]] h1]]
  have 1: "map fst (all_rows (fst (pump_queue_into_buffers (\<lambda>j. 105 + of_nat j) [] 3 ?s1)))
       = [Finite 5, Finite 6]"
    by (simp add: session_default_def u)
  from conjunct2 [OF mp [OF conjunct1 [OF conjunct2 [OF timestamp_policy [of ?s2 _ _ _ "\<lambda>j. 105 + of_nat j" 3]]] h2]]
  have 2: "all_rows (fst (pump_queue_into_buffers (\<lambda>j. 105 + of_nat j) [] 3 ?s2))
       = [sample 42 1, sample 0 2]"
    by (simp add: session_default_def)
  show ?thesis by (intro conjI h1 1 h2 2)
qed

text \<open>
  The claim as stated fails for a device time that is not zero: Start sets the start time
  to 100, a record with device time 42 arrives, and the pump, at clock reading 105,
  appends it with time 5.
\<close>

theorem device_time_counterexample:
  "all_rows (start_reader 100 (steady 105) [sample 42 1] [] session_default) = [sample 5 1]
   \<and> fst (hd (all_rows (start_reader 100 (steady 105) [sample 42 1] [] session_default)))
       \<noteq> Finite 42"
  by code_simp

text \<open>
  C8 (accumulator life cycle), as amended. A Start request that finds no live reader
  thread empties ring and accumulator, whatever they held; a Start request that finds a
  live reader thread changes nothing. The pump only appends to the accumulator, the
  reader thread does not touch it, and Stop leaves it as it is and writes it to the
  download as CSV when it is not empty. In xiao_usb_live.py neither starting nor stopping
  the reader changes the log, and its pump only appends to it.
\<close>

theorem accumulator_lifecycle:
  "(reader_thread ss = Some True \<longrightarrow> start_reader now clk seed arr ss = ss)
   \<and> (reader_thread ss \<noteq> Some True \<longrightarrow>
        start_reader now clk seed arr (ss\<lparr>all_rows := xs, data := Deque (maxlen (data ss)) ys\<rparr>)
          = start_reader now clk seed arr ss
        \<and> (entries (q_parsed ss) = [] \<longrightarrow>
             all_rows (start_reader now clk [] arr ss) = []
             \<and> items (data (start_reader now clk [] arr ss)) = []))
   \<and> (\<exists>zs. all_rows (fst (pump_queue_into_buffers clk arr repeat ss)) = all_rows ss @ zs)
   \<and> all_rows (reader_relays rows ss) = all_rows ss
   \<and> all_rows (stop_reader_and_save to_csv ss) = all_rows ss
   \<and> (all_rows ss \<noteq> [] \<longrightarrow>
        download_bytes (stop_reader_and_save to_csv ss) = to_csv (all_rows ss))
   \<and> log_rows (start_reader_live ls) = log_rows ls
   \<and> log_rows (stop_reader_live ls) = log_rows ls
   \<and> (\<exists>zs. log_rows (pump_queues ls) = log_rows ls @ zs)"
proof -
  have a: "reader_thread ss = Some True \<longrightarrow> start_reader now clk seed arr ss = ss"
    by (simp add: start_reader_def)
  have b: "reader_thread ss \<noteq> Some True \<longrightarrow>
        start_reader now clk seed arr (ss\<lparr>all_rows := xs, data := Deque (maxlen (data ss)) ys\<rparr>)
          = start_reader now clk seed arr ss
        \<and> (entries (q_parsed ss) = [] \<longrightarrow>
             all_rows (start_reader now clk [] arr ss) = []
             \<and> items (data (start_reader now clk [] arr ss)) = [])"
  proof (intro impI conjI)
    assume n: "reader_thread ss \<noteq> Some True"
    then show "start_reader now clk seed arr (ss\<lparr>all_rows := xs, data := Deque (maxlen (data ss)) ys\<rparr>)
          = start_reader now clk seed arr ss"
      by (simp add: start_reader_def deque_clear_def)
    assume e: "entries (q_parsed ss) = []"
    let ?s1 = "ss\<lparr>data := deque_clear (data ss), all_rows := [], download_bytes := [],
                         plotted_n := 0, t0 := Some now, reader_thread := Some True\<rparr>"
    have "entries (q_parsed ?s1) = []" using e by simp
    then have d: "drain clk 0 ?s1 = (?s1, 0)" by (rule drain_empty)
    have "\<exists>n. nat (max 1 (3 :: int)) = Suc n" by (intro exI [of _ 2]) simp
    then obtain m where m: "nat (max 1 (3 :: int)) = Suc m" ..
    have p: "pump_queue_into_buffers clk arr 3 ?s1 = (?s1, 0)"
      unfolding pump_queue_into_buffers_def m by (simp add: d)
    from n p show "all_rows (start_reader now clk [] arr ss) = []"
      by (simp add: start_reader_def)
    from n p show "items (data (start_reader now clk [] arr ss)) = []"
      by (simp add: start_reader_def deque_clear_def)
  qed
  have c: "\<exists>zs. all_rows (fst (pump_queue_into_buffers clk arr repeat ss)) = all_rows ss @ zs"
    using pump_fields [of clk arr repeat ss] by blast
  have d: "all_rows (reader_relays rows ss) = all_rows ss" by simp
  have e: "all_rows (stop_reader_and_save to_csv ss) = all_rows ss"
    by (simp add: stop_reader_and_save_def Let_def)
  have f: "all_rows ss \<noteq> [] \<longrightarrow>
        download_bytes (stop_reader_and_save to_csv ss) = to_csv (all_rows ss)"
    by (simp add: stop_reader_and_save_def Let_def)
  have g: "log_rows (start_reader_live ls) = log_rows ls"
    by (simp add: start_reader_live_def)
  have h: "log_rows (stop_reader_live ls) = log_rows ls"
    by (simp add: stop_reader_live_def)
  show ?thesis by (intro conjI a b c d e f g h pump_queues_log)
qed

theorem accumulator_lifecycle_witness:
  "reader_thread (session_default\<lparr>reader_thread := Some True, all_rows := [sample 1 1]\<rparr>) = Some True
   \<and> start_reader 7 (\<lambda>j. 8) [sample 0 2] [] (session_default\<lparr>reader_thread := Some True, all_rows := [sample 1 1]\<rparr>)
       = session_default\<lparr>reader_thread := Some True, all_rows := [sample 1 1]\<rparr>
   \<and> reader_thread (session_default\<lparr>reader_thread := Some False, all_rows := [sample 1 1]\<rparr>) \<noteq> Some True
   \<and> entries (q_parsed (session_default\<lparr>reader_thread := Some False, all_rows := [sample 1 1]\<rparr>)) = []
   \<and> all_rows (start_reader 7 (\<lambda>j. 8) [] [] (session_default\<lparr>reader_thread := Some False, all_rows := [sample 1 1]\<rparr>)) = []
   \<and> all_rows (session_default\<lparr>all_rows := [sample 1 1]\<rparr>) \<noteq> []
   \<and> all_rows (stop_reader_and_save (map (\<lambda>row. CHR ''r'')) (session_default\<lparr>all_rows := [sample 1 1]\<rparr>))
       = [sample 1 1]
   \<and> download_bytes (stop_reader_and_save (map (\<lambda>row. CHR ''r'')) (session_default\<lparr>all_rows := [sample 1 1]\<rparr>))
       = ''r''"
proof -
  let ?a = "session_default\<lparr>reader_thread := Some True, all_rows := [sample 1 1]\<rparr>"
  let ?b = "session_default\<lparr>reader_thread := Some False, all_rows := [sample 1 1]\<rparr>"
  let ?c = "session_default\<lparr>all_rows := [sample 1 1]\<rparr>"
  have h1: "reader_thread ?a = Some True" by simp
  have h2: "reader_thread ?b \<noteq> Some True" by simp
  have h3: "entries (q_parsed ?b) = []" by (simp add: session_default_def)
  have h4: "all_rows ?c \<noteq> []" by simp
  from mp [OF conjunct1 [OF accumulator_lifecycle [of ?a 7 "\<lambda>j. 8" "[sample 0 2]" "[]"]] h1]
  have 1: "start_reader 7 (\<lambda>j. 8) [sample 0 2] [] ?a = ?a" .
  from mp [OF conjunct2 [OF mp [OF conjunct1 [OF conjunct2 [OF accumulator_lifecycle [of ?b 7 "\<lambda>j. 8" _ "[]"]]] h2]] h3]
  have 2: "all_rows (start_reader 7 (\<lambda>j. 8) [] [] ?b) = []" by simp
  note r = conjunct2 [OF conjunct2 [OF conjunct2 [OF conjunct2
      [OF accumulator_lifecycle [where ss = ?c and to_csv = "map (\<lambda>row. CHR ''r'')"]]]]]
  from conjunct1 [OF r]
  have 3: "all_rows (stop_reader_and_save (map (\<lambda>row. CHR ''r'')) ?c) = [sample 1 1]" by simp
  from mp [OF conjunct1 [OF conjunct2 [OF r]] h4]
  have 4: "download_bytes (stop_reader_and_save (map (\<lambda>row. CHR ''r'')) ?c) = ''r''" by simp
  show ?thesis by (intro conjI h1 1 h2 h3 2 h4 3 4)
qed

text \<open>
  The claim as stated fails for a Start request made while a reader thread is alive:
  \<^verbatim>\<open>start_reader\<close> returns at once and the accumulator keeps its records. In
  xiao_usb_live.py \<^verbatim>\<open>start_reader\<close> never empties the log.
\<close>

theorem start_while_alive_counterexample:
  "all_rows (start_reader 7 (steady 8) [] []
      (session_default\<lparr>reader_thread := Some True, all_rows := [sample 1 1]\<rparr>)) = [sample 1 1]
   \<and> all_rows (start_reader 7 (steady 8) [] []
      (session_default\<lparr>reader_thread := Some True, all_rows := [sample 1 1]\<rparr>)) \<noteq> []
   \<and> log_rows (start_reader_live
        \<lparr>live_reader_thread = None, live_q_parsed = Queue 10000 [], parsed = Deque 5000 [],
         logging = True,
         log_rows = [[Finite 0, Finite 1, Finite 2, Finite 3, Finite 4, Finite 5, Finite 6]]\<rparr>)
       = [[Finite 0, Finite 1, Finite 2, Finite 3, Finite 4, Finite 5, Finite 6]]"
  by (simp add: start_reader_def start_reader_live_def)

section \<open>Properties of the command exchange\<close>

lemma fold_notify_stale:
  "fold notify msgs (b\<lparr>last_reply := x\<rparr>)
     = (fold notify msgs b)\<lparr>last_reply := (if msgs = [] then x else strip (last msgs))\<rparr>"
  by (induction msgs arbitrary: b x) (auto simp: notify_def)

lemma fold_notify_cell:
  "last_reply (fold notify msgs b) = (if msgs = [] then last_reply b else strip (last msgs))"
  by (induction msgs arbitrary: b) (auto simp: notify_def)

text \<open>The loop returns at the first poll that finds the timeout elapsed or the cell filled.\<close>

lemma wait_loop_find:
  "wait_loop T s now ticks b =
     (case find (\<lambda>(c, cell). T \<le> c - s \<or> cell \<noteq> []) (polls now ticks b) of
        None \<Rightarrow> None
      | Some (c, cell) \<Rightarrow> Some (if c - s < T then cell else ''(no reply)'', c))"
  by (induction T s now ticks b rule: wait_loop.induct) (auto simp: not_less)

lemma wait_loop_before:
  "wait_loop T s now ticks b = Some (r, c) \<Longrightarrow> c - s < T \<Longrightarrow>
   r \<noteq> [] \<and> (c, r) \<in> set (polls now ticks b)"
  by (induction T s now ticks b rule: wait_loop.induct) (auto split: if_splits)

lemma wait_loop_after:
  "wait_loop T s now ticks b = Some (r, c) \<Longrightarrow> T \<le> c - s \<Longrightarrow> r = ''(no reply)''"
  by (induction T s now ticks b rule: wait_loop.induct) (auto split: if_splits)

lemma wait_loop_total:
  "list_all (\<lambda>t. 0 \<le> fst t) ticks \<Longrightarrow> T - (now - s) \<le> of_nat (length ticks) / 50 \<Longrightarrow>
   \<exists>res. wait_loop T s now ticks b = Some res"
proof (induction ticks arbitrary: now b)
  case Nil
  then show ?case by simp
next
  case (Cons t ticks)
  obtain late msgs where t: "t = (late, msgs)" by (cases t)
  from Cons.prems t have l: "0 \<le> late" and a: "list_all (\<lambda>t. 0 \<le> fst t) ticks" by simp_all
  have "T - (now + 1 / 50 + late - s) \<le> of_nat (length ticks) / 50"
    using Cons.prems(2) l by (simp add: field_simps)
  from Cons.IH [OF a this] show ?case by (simp add: t)
qed

lemma polls_from:
  "list_all (\<lambda>t. 0 \<le> fst t) ticks \<Longrightarrow> list_all (\<lambda>p. now \<le> fst p) (polls now ticks b)"
proof (induction ticks arbitrary: now b)
  case Nil
  show ?case by simp
next
  case (Cons t ticks)
  obtain late msgs where t: "t = (late, msgs)" by (cases t)
  from Cons.prems t have l: "0 \<le> late" and a: "list_all (\<lambda>t. 0 \<le> fst t) ticks" by simp_all
  from Cons.IH [OF a, of "now + 1 / 50 + late" "fold notify msgs b"] l
  have "list_all (\<lambda>p. now \<le> fst p) (polls (now + 1 / 50 + late) ticks (fold notify msgs b))"
    by (auto simp: list_all_iff)
  then show ?case by (simp add: t)
qed

lemma polls_spaced:
  "list_all (\<lambda>t. 0 \<le> fst t) ticks \<Longrightarrow>
   sorted_wrt (\<lambda>p q. fst p + 1 / 50 \<le> fst q) (polls now ticks b)"
proof (induction ticks arbitrary: now b)
  case Nil
  show ?case by simp
next
  case (Cons t ticks)
  obtain late msgs where t: "t = (late, msgs)" by (cases t)
  from Cons.prems t have l: "0 \<le> late" and a: "list_all (\<lambda>t. 0 \<le> fst t) ticks" by simp_all
  from polls_from [OF a, of "now + 1 / 50 + late" "fold notify msgs b"] l
  have "list_all (\<lambda>p. now + 1 / 50 \<le> fst p) (polls (now + 1 / 50 + late) ticks (fold notify msgs b))"
    by (auto simp: list_all_iff)
  with Cons.IH [OF a, of "now + 1 / 50 + late" "fold notify msgs b"]
  show ?case by (simp add: t list_all_iff)
qed

section \<open>Claims about the command exchange\<close>

text \<open>
  C7 (send and wait), as amended. \<^verbatim>\<open>send_and_wait\<close> clears the reply cell before it
  sends, so that its result does not depend on what the cell held. It then polls the cell,
  two polls being at least 20 ms apart, and returns at the first poll that finds the
  timeout elapsed or the cell not empty: before the timeout has elapsed it returns the
  content of the cell at that poll, which is not empty and is the last notification
  received up to then; once the timeout has elapsed it returns \<^verbatim>\<open>(no reply)\<close>, and never
  before. With sleeps that last at least their 20 ms it returns after at most
  \<open>50 * timeout\<close> sleeps.
\<close>

theorem send_and_wait_polls:
  "send_and_wait wr early T s ticks (b\<lparr>last_reply := stale\<rparr>) = send_and_wait wr early T s ticks b
   \<and> (client_connected b \<longrightarrow>
        send None b = Inr (b\<lparr>last_reply := []\<rparr>)
        \<and> send_and_wait None early T s ticks b =
            (case find (\<lambda>(c, cell). T \<le> c - s \<or> cell \<noteq> [])
                    (polls s ticks (fold notify early (b\<lparr>last_reply := []\<rparr>))) of
               None \<Rightarrow> None
             | Some (c, cell) \<Rightarrow> Some (Inr (if c - s < T then cell else ''(no reply)'', c))))
   \<and> (send_and_wait wr early T s ticks b = Some (Inr (r, c)) \<longrightarrow>
        (c - s < T \<longrightarrow>
           r \<noteq> [] \<and> (c, r) \<in> set (polls s ticks (fold notify early (b\<lparr>last_reply := []\<rparr>))))
        \<and> (T \<le> c - s \<longrightarrow> r = ''(no reply)''))
   \<and> (list_all (\<lambda>t. 0 \<le> fst t) ticks \<longrightarrow>
        sorted_wrt (\<lambda>p q. fst p + 1 / 50 \<le> fst q)
          (polls s ticks (fold notify early (b\<lparr>last_reply := []\<rparr>)))
        \<and> (T \<le> of_nat (length ticks) / 50 \<longrightarrow>
             (\<exists>res. send_and_wait wr early T s ticks b = Some res)))
   \<and> last_reply (fold notify msgs b) = (if msgs = [] then last_reply b else strip (last msgs))"
proof -
  have a: "send_and_wait wr early T s ticks (b\<lparr>last_reply := stale\<rparr>)
      = send_and_wait wr early T s ticks b"
    by (simp add: send_and_wait_def send_def Let_def)
  have b: "client_connected b \<longrightarrow>
        send None b = Inr (b\<lparr>last_reply := []\<rparr>)
        \<and> send_and_wait None early T s ticks b =
            (case find (\<lambda>(c, cell). T \<le> c - s \<or> cell \<noteq> [])
                    (polls s ticks (fold notify early (b\<lparr>last_reply := []\<rparr>))) of
               None \<Rightarrow> None
             | Some (c, cell) \<Rightarrow> Some (Inr (if c - s < T then cell else ''(no reply)'', c)))"
    by (auto simp: send_and_wait_def send_def Let_def wait_loop_find split: option.splits)
  have c: "send_and_wait wr early T s ticks b = Some (Inr (r, c)) \<longrightarrow>
        (c - s < T \<longrightarrow>
           r \<noteq> [] \<and> (c, r) \<in> set (polls s ticks (fold notify early (b\<lparr>last_reply := []\<rparr>))))
        \<and> (T \<le> c - s \<longrightarrow> r = ''(no reply)'')"
  proof
    assume h: "send_and_wait wr early T s ticks b = Some (Inr (r, c))"
    then have w: "wait_loop T s s ticks (fold notify early (b\<lparr>last_reply := []\<rparr>)) = Some (r, c)"
      by (auto simp: send_and_wait_def send_def Let_def split: if_splits option.splits)
    from wait_loop_before [OF w] wait_loop_after [OF w]
    show "(c - s < T \<longrightarrow>
           r \<noteq> [] \<and> (c, r) \<in> set (polls s ticks (fold notify early (b\<lparr>last_reply := []\<rparr>))))
        \<and> (T \<le> c - s \<longrightarrow> r = ''(no reply)'')"
      by blast
  qed
  have d: "list_all (\<lambda>t. 0 \<le> fst t) ticks \<longrightarrow>
        sorted_wrt (\<lambda>p q. fst p + 1 / 50 \<le> fst q)
          (polls s ticks (fold notify early (b\<lparr>last_reply := []\<rparr>)))
        \<and> (T \<le> of_nat (length ticks) / 50 \<longrightarrow>
             (\<exists>res. send_and_wait wr early T s ticks b = Some res))"
  proof (intro impI conjI)
    assume l: "list_all (\<lambda>t. 0 \<le> fst t) ticks"
    from polls_spaced [OF l]
    show "sorted_wrt (\<lambda>p q. fst p + 1 / 50 \<le> fst q)
          (polls s ticks (fold notify early (b\<lparr>last_reply := []\<rparr>)))" .
    assume t: "T \<le> of_nat (length ticks) / 50"
    then have "T - (s - s) \<le> of_nat (length ticks) / 50" by simp
    from wait_loop_total [OF l this]
    show "\<exists>res. send_and_wait wr early T s ticks b = Some res"
      by (auto simp: send_and_wait_def send_def Let_def split: option.splits)
  qed
  show ?thesis by (intro conjI a b c d fold_notify_cell)
qed

theorem send_and_wait_polls_witness:
  "client_connected \<lparr>client_connected = True, last_reply = ''OK D9''\<rparr>
   \<and> send_and_wait None [] (1 / 2) 10 [(0, []), (1 / 100, [''OK D7 ''])]
        \<lparr>client_connected = True, last_reply = ''OK D9''\<rparr>
       = Some (Inr (''OK D7'', 201 / 20))
   \<and> list_all (\<lambda>t. 0 \<le> fst t) (replicate 25 (0 :: rat, [] :: string list))
   \<and> send_and_wait None [] (1 / 2) 10 (replicate 25 (0, []))
        \<lparr>client_connected = True, last_reply = ''OK D9''\<rparr>
       = Some (Inr (''(no reply)'', 21 / 2))"
proof -
  let ?b = "\<lparr>client_connected = True, last_reply = ''OK D9''\<rparr>"
  have h: "client_connected ?b" by simp
  have f1: "(case find (\<lambda>(c, cell). (1 / 2 :: rat) \<le> c - 10 \<or> cell \<noteq> [])
                    (polls 10 [(0, []), (1 / 100, [''OK D7 ''])] (fold notify [] (?b\<lparr>last_reply := []\<rparr>))) of
               None \<Rightarrow> None
             | Some (c, cell) \<Rightarrow> Some (Inr (if c - 10 < 1 / 2 then cell else ''(no reply)'', c)))
       = (Some (Inr (''OK D7'', 201 / 20)) :: (exn + string \<times> rat) option)"
    by code_simp
  have f2: "(case find (\<lambda>(c, cell). (1 / 2 :: rat) \<le> c - 10 \<or> cell \<noteq> [])
                    (polls 10 (replicate 25 (0, [])) (fold notify [] (?b\<lparr>last_reply := []\<rparr>))) of
               None \<Rightarrow> None
             | Some (c, cell) \<Rightarrow> Some (Inr (if c - 10 < 1 / 2 then cell else ''(no reply)'', c)))
       = (Some (Inr (''(no reply)'', 21 / 2)) :: (exn + string \<times> rat) option)"
    by code_simp
  have l: "list_all (\<lambda>t. 0 \<le> fst t) (replicate 25 (0 :: rat, [] :: string list))"
    by (simp add: list_all_iff)
  from conjunct2 [OF mp [OF conjunct1 [OF conjunct2 [OF send_and_wait_polls
      [where b = ?b and early = "[]" and T = "1 / 2" and s = 10
         and ticks = "[(0, []), (1 / 100, [''OK D7 ''])]"]]] h]] f1
  have 1: "send_and_wait None [] (1 / 2) 10 [(0, []), (1 / 100, [''OK D7 ''])] ?b
       = Some (Inr (''OK D7'', 201 / 20))"
    by (simp only:)
  from conjunct2 [OF mp [OF conjunct1 [OF conjunct2 [OF send_and_wait_polls
      [where b = ?b and early = "[]" and T = "1 / 2" and s = 10
         and ticks = "replicate 25 (0, [])"]]] h]] f2
  have 2: "send_and_wait None [] (1 / 2) 10 (replicate 25 (0, [])) ?b
       = Some (Inr (''(no reply)'', 21 / 2))"
    by (simp only:)
  show ?thesis by (intro conjI h 1 l 2)
qed

text \<open>
  The claim as stated fails when two notifications arrive between two polls: the cell
  holds one reply, the second notification overwrites the first, and the poll returns the
  second reply, not the first non-empty reply that appeared.
\<close>

theorem reply_overwritten_counterexample:
  "send_and_wait None [] (1 / 2) 0 [(0, [''OK D7'', ''READY''])]
     \<lparr>client_connected = True, last_reply = []\<rparr> = Some (Inr (''READY'', 1 / 50))
   \<and> strip ''OK D7'' \<noteq> []
   \<and> ''READY'' \<noteq> strip ''OK D7''"
  by code_simp

end
